theory Spec2Isabelle
  imports Main "HOL-Library.Word"
begin

unbundle bit_operations_syntax

section \<open>The consistent hashing ring of fogfish/ring\<close>

text \<open>
  A shallow embedding of \<^verbatim>\<open>ring.go\<close>, \<^verbatim>\<open>hash.go\<close> and the options file.
  Go's \<^verbatim>\<open>uint64\<close> is \<open>64 word\<close>; Go's \<^verbatim>\<open>int\<close> is \<open>int\<close>, with the
  64-bit wrap-around written out (\<open>int64\<close>) where a sum is formed, and with Go's
  truncating remainder (\<open>go_rem\<close>). A run-time panic is a value \<open>Inl e\<close>.
  The receiver \<^verbatim>\<open>ring *Ring\<close> is passed and returned explicitly.
\<close>

subsection \<open>Machine arithmetic, panics, slices\<close>

datatype error = DivideByZero | IndexOutOfRange | LenOutOfRange | CapOutOfRange

type_synonym u64 = "64 word"
type_synonym byte = "8 word"

definition int64 :: "int \<Rightarrow> int" where
  "int64 x = (x + 2 ^ 63) mod 2 ^ 64 - 2 ^ 63"

definition go_rem :: "int \<Rightarrow> int \<Rightarrow> int" where
  "go_rem a b = sgn a * (\<bar>a\<bar> mod \<bar>b\<bar>)"

text \<open>\<^verbatim>\<open>xs[i]\<close> panics outside \<open>0 \<le> i < len(xs)\<close>.\<close>

definition index :: "'a list \<Rightarrow> int \<Rightarrow> error + 'a" where
  "index xs i = (if 0 \<le> i \<and> i < int (length xs) then Inr (xs ! nat i) else Inl IndexOutOfRange)"

text \<open>
  \<^verbatim>\<open>make([]T, n)\<close> and \<^verbatim>\<open>make([]T, 0, n)\<close> with \<^verbatim>\<open>n uint64\<close> panic in the
  runtime's \<^verbatim>\<open>makeslice\<close> when \<open>n\<close> does not fit \<^verbatim>\<open>int\<close> or when \<open>n\<close> elements of
  \<open>sz\<close> bytes exceed \<^verbatim>\<open>maxAlloc\<close>, which is \<open>2^48\<close> bytes on the 64-bit platforms
  (\<^verbatim>\<open>mem > maxAlloc\<close>). Up to that bound the allocation succeeds in the model: running
  out of memory is a fatal error of the process and not a panic. The first form reports
  \<^verbatim>\<open>len out of range\<close>, the second \<^verbatim>\<open>cap out of range\<close>. A \<^verbatim>\<open>Hash\<close> is
  40 bytes (two \<^verbatim>\<open>uint64\<close>, an \<^verbatim>\<open>int\<close>, a string header), a \<^verbatim>\<open>uint64\<close> 8, a
  \<^verbatim>\<open>Node\<close> interface value 16.
\<close>

definition maxAlloc :: int where
  "maxAlloc = 2 ^ 48"

definition makeslice :: "int \<Rightarrow> u64 \<Rightarrow> bool" where
  "makeslice sz n = (uint n < 2 ^ 63 \<and> sz * uint n \<le> maxAlloc)"

subsection \<open>Data model (\<^verbatim>\<open>hash.go\<close>, \<^verbatim>\<open>ring.go\<close>)\<close>

record Hash =
  hash :: u64
  addr :: u64
  rank :: int
  node :: string

record Ring =
  m :: u64
  q :: u64
  t :: u64
  hasher :: "byte list \<Rightarrow> byte list"
  arc :: u64
  hashes :: "Hash list"
  nodes :: "string \<rightharpoonup> bool"

text \<open>
  \<open>hasher r bs\<close> is the digest \<^verbatim>\<open>h.Sum(nil)\<close> of a fresh \<^verbatim>\<open>h := ring.hasher()\<close> after
  the bytes \<open>bs\<close> were written to it.
\<close>

definition bytes :: "string \<Rightarrow> byte list" where
  "bytes s = map (\<lambda>c. of_nat (of_char c)) s"

subsection \<open>\<^verbatim>\<open>Hashes\<close> methods\<close>

definition update :: "Hash list \<Rightarrow> int \<Rightarrow> u64 \<Rightarrow> int \<Rightarrow> string \<Rightarrow> error + Hash list" where
  "update hs shard a rk nd =
     (case index hs shard of
        Inl e \<Rightarrow> Inl e
      | Inr h \<Rightarrow> Inr (hs[nat shard := h\<lparr>addr := a, rank := rk, node := nd\<rparr>]))"

definition updateNode :: "Hash list \<Rightarrow> int \<Rightarrow> Hash \<Rightarrow> error + Hash list" where
  "updateNode hs shard x =
     (case index hs shard of
        Inl e \<Rightarrow> Inl e
      | Inr h \<Rightarrow> Inr (hs[nat shard := h\<lparr>node := node x\<rparr>]))"

fun contains :: "Hash list \<Rightarrow> string \<Rightarrow> bool" where
  "contains [] nd = False"
| "contains (x # xs) nd = (if node x = nd then True else contains xs nd)"

subsection \<open>Options\<close>

type_synonym Option = "Ring \<Rightarrow> Ring"

definition WithM8 :: Option where "WithM8 r = r\<lparr>m := 8\<rparr>"
definition WithM16 :: Option where "WithM16 r = r\<lparr>m := 16\<rparr>"
definition WithM32 :: Option where "WithM32 r = r\<lparr>m := 32\<rparr>"
definition WithM64 :: Option where "WithM64 r = r\<lparr>m := 64\<rparr>"
definition WithQ :: "u64 \<Rightarrow> Option" where "WithQ x r = r\<lparr>q := x\<rparr>"
definition WithT :: "u64 \<Rightarrow> Option" where "WithT n r = r\<lparr>t := n\<rparr>"
definition WithHash :: "(byte list \<Rightarrow> byte list) \<Rightarrow> Option" where
  "WithHash f r = r\<lparr>hasher := f\<rparr>"
definition WithRing :: "Ring \<Rightarrow> Option" where
  "WithRing r0 r = r\<lparr>m := m r0, q := q r0, t := t r0, hasher := hasher r0\<rparr>"

fun Options :: "Option list \<Rightarrow> Option" where
  "Options [] r = r"
| "Options (opt # opts) r = Options opts (opt r)"

text \<open>
  The presets use \<^verbatim>\<open>crypto/sha1\<close>, which is outside the repository: the digest
  function is the parameter \<open>sha1\<close>.
\<close>

definition M64_Q8_T8 :: "(byte list \<Rightarrow> byte list) \<Rightarrow> Option" where
  "M64_Q8_T8 sha1 = Options [WithM64, WithQ 8, WithT 8, WithHash sha1]"

definition M64_Q4096_T256 :: "(byte list \<Rightarrow> byte list) \<Rightarrow> Option" where
  "M64_Q4096_T256 sha1 = Options [WithM64, WithQ 4096, WithT 256, WithHash sha1]"

subsection \<open>Ring algebra\<close>

definition highest :: "Ring \<Rightarrow> u64" where
  "highest r = push_bit (unat (m r)) 1 - 1"

definition segment :: "Ring \<Rightarrow> error + u64" where
  "segment r = (if q r = 0 then Inl DivideByZero else Inr (highest r div q r + 1))"

definition addressShard :: "Ring \<Rightarrow> u64 \<Rightarrow> u64" where
  "addressShard r shard = shard * arc r - 1"

definition addresses :: "Ring \<Rightarrow> error + u64 list" where
  "addresses r =
     (if makeslice 8 (q r)
      then Inr (map (\<lambda>i. addressShard r (of_nat i + 1)) [0..<unat (q r)])
      else Inl LenOutOfRange)"

definition empty :: "Ring \<Rightarrow> error + Ring" where
  "empty r =
     (if makeslice 40 (q r)
      then (case addresses r of
              Inl e \<Rightarrow> Inl e
            | Inr seq \<Rightarrow>
                Inr (r\<lparr>hashes := map (\<lambda>a. \<lparr>hash = a, addr = 0, rank = - 1, node = []\<rparr>) seq,
                       nodes := Map.empty\<rparr>))
      else Inl LenOutOfRange)"

text \<open>The zero value \<^verbatim>\<open>&Ring{}\<close>; its nil hasher is always replaced by \<open>M64_Q8_T8\<close>.\<close>

definition zero_ring :: Ring where
  "zero_ring = \<lparr>m = 0, q = 0, t = 0, hasher = (\<lambda>bs. []), arc = 0, hashes = [],
                 nodes = Map.empty\<rparr>"

definition New :: "(byte list \<Rightarrow> byte list) \<Rightarrow> Option list \<Rightarrow> error + Ring" where
  "New sha1 opts =
     (let ring = Options opts (M64_Q8_T8 sha1 zero_ring)
      in case segment ring of
           Inl e \<Rightarrow> Inl e
         | Inr a \<Rightarrow> empty (ring\<lparr>arc := a\<rparr>))"

text \<open>
  \<^verbatim>\<open>addressHash\<close>: \<^verbatim>\<open>hash[0]\<close>, then the bytes \<open>1 \<le> i < m/8\<close>, little-endian; a shift
  by 64 or more yields 0 in Go, as \<open>push_bit\<close> does.
\<close>

fun address_bytes :: "byte list \<Rightarrow> nat list \<Rightarrow> u64 \<Rightarrow> error + u64" where
  "address_bytes h [] a = Inr a"
| "address_bytes h (i # is) a =
     (if i < length h
      then address_bytes h is (a OR push_bit (8 * i) (ucast (h ! i)))
      else Inl IndexOutOfRange)"

definition addressHash :: "Ring \<Rightarrow> byte list \<Rightarrow> error + (int \<times> u64)" where
  "addressHash r h =
     (case h of
        [] \<Rightarrow> Inl IndexOutOfRange
      | b # bs \<Rightarrow>
          (case address_bytes h [1..<unat (m r div 8)] (ucast b) of
             Inl e \<Rightarrow> Inl e
           | Inr a \<Rightarrow>
               if arc r = 0 \<or> q r = 0 then Inl DivideByZero
               else Inr (sint ((a div arc r) mod q r), a)))"

text \<open>\<^verbatim>\<open>ring.hash(key, hash)\<close>: the key's bytes, then the previous digest if any.\<close>

definition ring_hash :: "Ring \<Rightarrow> string \<Rightarrow> byte list \<Rightarrow> byte list" where
  "ring_hash r key h = hasher r (bytes key @ h)"

definition address :: "Ring \<Rightarrow> string \<Rightarrow> error + (int \<times> u64)" where
  "address r key = addressHash r (ring_hash r key [])"

subsection \<open>Join, repair, Leave, Handoff\<close>

text \<open>The four claiming cases of the \<^verbatim>\<open>switch\<close> in \<^verbatim>\<open>Join\<close>, in order.\<close>

definition claims :: "Hash \<Rightarrow> int \<Rightarrow> u64 \<Rightarrow> bool" where
  "claims main rk a =
     (if addr main = 0 then True
      else if rank main \<noteq> 0 \<and> rk = 0 then True
      else if rank main = rk \<and> addr main < a then True
      else if rank main > rk then True
      else False)"

fun allocate :: "Ring \<Rightarrow> string \<Rightarrow> int list \<Rightarrow> byte list \<Rightarrow> Hash list \<Rightarrow> error + Hash list" where
  "allocate r nd [] h hs = Inr hs"
| "allocate r nd (rk # rks) h hs =
     (case addressHash r (ring_hash r nd h) of
        Inl e \<Rightarrow> Inl e
      | Inr (shard, a) \<Rightarrow>
          (case index hs shard of
             Inl e \<Rightarrow> Inl e
           | Inr main \<Rightarrow>
               (case (if claims main rk a then update hs shard a rk nd else Inr hs) of
                  Inl e \<Rightarrow> Inl e
                | Inr hs' \<Rightarrow> allocate r nd rks (ring_hash r nd h) hs')))"

text \<open>
  \<^verbatim>\<open>repair\<close>, first loop: \<open>i\<close> runs over \<^verbatim>\<open>uint64\<close> from \<open>q - 1\<close> down to 1 and stops
  at the first claimed shard.
\<close>

fun repair_head :: "Hash list \<Rightarrow> nat list \<Rightarrow> error + Hash list" where
  "repair_head hs [] = Inr hs"
| "repair_head hs (i # is) =
     (case index hs (int i) of
        Inl e \<Rightarrow> Inl e
      | Inr h \<Rightarrow> if rank h \<noteq> - 1 then updateNode hs 0 h else repair_head hs is)"

text \<open>Second loop: \<open>i\<close> runs over \<^verbatim>\<open>int\<close> from 1 to \<open>int(q) - 1\<close>.\<close>

fun repair_tail :: "Hash list \<Rightarrow> int list \<Rightarrow> error + Hash list" where
  "repair_tail hs [] = Inr hs"
| "repair_tail hs (i # is) =
     (case index hs i of
        Inl e \<Rightarrow> Inl e
      | Inr h \<Rightarrow>
          if rank h = - 1
          then (case index hs (i - 1) of
                  Inl e \<Rightarrow> Inl e
                | Inr p \<Rightarrow>
                    (case updateNode hs i p of
                       Inl e \<Rightarrow> Inl e
                     | Inr hs' \<Rightarrow> repair_tail hs' is))
          else repair_tail hs is)"

definition repair :: "Ring \<Rightarrow> error + Ring" where
  "repair r =
     (case index (hashes r) 0 of
        Inl e \<Rightarrow> Inl e
      | Inr h0 \<Rightarrow>
          (case (if rank h0 = - 1
                 then repair_head (hashes r) (rev [1..<Suc (unat (q r - 1))])
                 else Inr (hashes r)) of
             Inl e \<Rightarrow> Inl e
           | Inr hs1 \<Rightarrow>
               (case repair_tail hs1 [1..sint (q r) - 1] of
                  Inl e \<Rightarrow> Inl e
                | Inr hs2 \<Rightarrow> Inr (r\<lparr>hashes := hs2\<rparr>))))"

definition Join :: "string \<Rightarrow> Ring \<Rightarrow> error + Ring" where
  "Join nd r =
     (if nodes r nd \<noteq> None then Inr (r\<lparr>nodes := (nodes r)(nd \<mapsto> True)\<rparr>)
      else (case allocate r nd [0..sint (t r) - 1] [] (hashes r) of
              Inl e \<Rightarrow> Inl e
            | Inr hs \<Rightarrow>
                (case repair (r\<lparr>hashes := hs\<rparr>) of
                   Inl e \<Rightarrow> Inl e
                 | Inr r' \<Rightarrow> Inr (r'\<lparr>nodes := (nodes r')(nd \<mapsto> True)\<rparr>))))"

text \<open>
  \<^verbatim>\<open>Leave\<close> ranges over the old map after the deletion. Go leaves the iteration order
  of a map open: \<open>ks\<close> is the order the run takes, an enumeration of the remaining keys
  (\<open>iteration ks\<close>).
\<close>

definition iteration :: "string list \<Rightarrow> (string \<rightharpoonup> bool) \<Rightarrow> bool" where
  "iteration ks mp = (distinct ks \<and> set ks = dom mp)"

fun rejoin :: "string list \<Rightarrow> Ring \<Rightarrow> error + Ring" where
  "rejoin [] r = Inr r"
| "rejoin (k # ks) r = (case Join k r of Inl e \<Rightarrow> Inl e | Inr r' \<Rightarrow> rejoin ks r')"

definition Leave :: "string list \<Rightarrow> string \<Rightarrow> Ring \<Rightarrow> error + Ring" where
  "Leave ks nd r =
     (if nodes r nd = None then Inr r
      else (case empty r of Inl e \<Rightarrow> Inl e | Inr r0 \<Rightarrow> rejoin ks r0))"

definition Handoff :: "string \<Rightarrow> Ring \<Rightarrow> Ring" where
  "Handoff nd r = r\<lparr>nodes := (nodes r)(nd \<mapsto> False)\<rparr>"

subsection \<open>Routing\<close>

definition active :: "Ring \<Rightarrow> string \<Rightarrow> bool" where
  "active r nd = (nodes r nd = Some True)"

text \<open>
  \<^verbatim>\<open>distinctNodes\<close>: \<open>i\<close> runs from 0 to \<open>int(q) - 1\<close>, so \<open>int(q)\<close> is positive inside
  the loop; the loop leaves at the first \<open>i\<close> where \<open>len(head) == int(n)\<close>.
\<close>

fun distinct_loop ::
  "Ring \<Rightarrow> u64 \<Rightarrow> int \<Rightarrow> int list \<Rightarrow> int \<Rightarrow> Hash list \<Rightarrow> error + (int \<times> Hash list)" where
  "distinct_loop r n fromShard [] lastShard head = Inr (lastShard, head)"
| "distinct_loop r n fromShard (i # is) lastShard head =
     (case index (hashes r) (go_rem (int64 (fromShard + i)) (sint (q r))) of
        Inl e \<Rightarrow> Inl e
      | Inr h \<Rightarrow>
          (let head' = (if \<not> contains head (node h) then head @ [h] else head)
           in if int (length head') = sint n
              then Inr (go_rem (int64 (fromShard + i)) (sint (q r)), head')
              else distinct_loop r n fromShard is
                     (go_rem (int64 (fromShard + i)) (sint (q r))) head'))"

definition distinctNodes :: "Ring \<Rightarrow> u64 \<Rightarrow> int \<Rightarrow> error + (int \<times> Hash list)" where
  "distinctNodes r n fromShard =
     (if makeslice 40 n then distinct_loop r n fromShard [0..sint (q r) - 1] 0 []
      else Inl CapOutOfRange)"

fun primaryNodes :: "Ring \<Rightarrow> Hash \<Rightarrow> Hash list \<Rightarrow> Hash list" where
  "primaryNodes r coord [] = []"
| "primaryNodes r coord (h # hs) =
     (if active r (node h)
      then \<lparr>hash = hash coord, addr = addr h, rank = rank h, node = node h\<rparr>
             # primaryNodes r coord hs
      else primaryNodes r coord hs)"

text \<open>The handoff loop of \<^verbatim>\<open>SuccessorOf\<close>: \<open>i\<close> runs from 1 to \<open>int(q) - 1\<close>.\<close>

fun handoff_loop ::
  "Ring \<Rightarrow> Hash \<Rightarrow> Hash list \<Rightarrow> int \<Rightarrow> int \<Rightarrow> int list \<Rightarrow> Hash list \<Rightarrow> error + Hash list" where
  "handoff_loop r coord primary hn lastShard [] handoff = Inr handoff"
| "handoff_loop r coord primary hn lastShard (i # is) handoff =
     (case index (hashes r) (go_rem (int64 (lastShard + i)) (sint (q r))) of
        Inl e \<Rightarrow> Inl e
      | Inr h \<Rightarrow>
          (let handoff' =
                 (if active r (node h) \<and> \<not> contains handoff (node h)
                       \<and> \<not> contains primary (node h)
                  then handoff @ [\<lparr>hash = hash coord, addr = addr h, rank = rank h,
                                    node = node h\<rparr>]
                  else handoff)
           in if int (length handoff') = hn then Inr handoff'
              else handoff_loop r coord primary hn lastShard is handoff'))"

definition SuccessorOf :: "u64 \<Rightarrow> string \<Rightarrow> Ring \<Rightarrow> error + (Hash list \<times> Hash list)" where
  "SuccessorOf n key r =
     (case address r key of
        Inl e \<Rightarrow> Inl e
      | Inr (shard, a) \<Rightarrow>
          (case index (hashes r) shard of
             Inl e \<Rightarrow> Inl e
           | Inr coord \<Rightarrow>
               (case distinctNodes r n shard of
                  Inl e \<Rightarrow> Inl e
                | Inr (lastShard, head) \<Rightarrow>
                    if int (length (primaryNodes r coord head)) = sint n
                    then Inr (primaryNodes r coord head, [])
                    else (case handoff_loop r coord (primaryNodes r coord head)
                                 (sint n - int (length (primaryNodes r coord head)))
                                 lastShard [1..sint (q r) - 1] [] of
                            Inl e \<Rightarrow> Inl e
                          | Inr handoff \<Rightarrow> Inr (primaryNodes r coord head, handoff)))))"

definition Lookup :: "u64 \<Rightarrow> Ring \<Rightarrow> error + Hash" where
  "Lookup a r =
     (if arc r = 0 \<or> q r = 0 then Inl DivideByZero
      else index (hashes r) (int (unat ((a div arc r) mod q r))))"

definition LookupKey :: "string \<Rightarrow> Ring \<Rightarrow> error + Hash" where
  "LookupKey key r =
     (case address r key of Inl e \<Rightarrow> Inl e | Inr (shard, a) \<Rightarrow> index (hashes r) shard)"

fun predecessor_loop :: "Ring \<Rightarrow> u64 \<Rightarrow> int \<Rightarrow> int list \<Rightarrow> Hash list \<Rightarrow> error + Hash list" where
  "predecessor_loop r n shard [] seq = Inr seq"
| "predecessor_loop r n shard (i # is) seq =
     (case index (hashes r)
             (go_rem (int64 (int64 (sint (q r) + shard) - i)) (sint (q r))) of
        Inl e \<Rightarrow> Inl e
      | Inr h \<Rightarrow>
          if int (length (seq @ [h])) = sint n then Inr (seq @ [h])
          else predecessor_loop r n shard is (seq @ [h]))"

definition predecessor :: "Ring \<Rightarrow> u64 \<Rightarrow> int \<Rightarrow> error + Hash list" where
  "predecessor r n shard =
     (if makeslice 16 n then predecessor_loop r n shard [0..sint (q r) - 1] []
      else Inl CapOutOfRange)"

fun successor_loop :: "Ring \<Rightarrow> u64 \<Rightarrow> int \<Rightarrow> int list \<Rightarrow> Hash list \<Rightarrow> error + Hash list" where
  "successor_loop r n shard [] seq = Inr seq"
| "successor_loop r n shard (i # is) seq =
     (case index (hashes r) (go_rem (int64 (shard + i)) (sint (q r))) of
        Inl e \<Rightarrow> Inl e
      | Inr h \<Rightarrow>
          if int (length (seq @ [h])) = sint n then Inr (seq @ [h])
          else successor_loop r n shard is (seq @ [h]))"

definition successor :: "Ring \<Rightarrow> u64 \<Rightarrow> int \<Rightarrow> error + Hash list" where
  "successor r n shard =
     (if makeslice 16 n then successor_loop r n shard [0..sint (q r) - 1] []
      else Inl CapOutOfRange)"

definition Before :: "u64 \<Rightarrow> u64 \<Rightarrow> Ring \<Rightarrow> error + Hash list" where
  "Before n a r =
     (if arc r = 0 \<or> q r = 0 then Inl DivideByZero
      else predecessor r (min n (q r)) (sint ((a div arc r) mod q r)))"

definition After :: "u64 \<Rightarrow> u64 \<Rightarrow> Ring \<Rightarrow> error + Hash list" where
  "After n a r =
     (if arc r = 0 \<or> q r = 0 then Inl DivideByZero
      else successor r (min n (q r)) (sint ((a div arc r) mod q r)))"




subsection \<open>Accessors\<close>

definition Has :: "string \<Rightarrow> Ring \<Rightarrow> bool" where
  "Has nd r = (nodes r nd \<noteq> None)"

text \<open>
  \<^verbatim>\<open>Nodes\<close>: every member starts with an empty list; then every shard entry is
  appended under its own \<open>node\<close>, a missing key reading as the nil slice.
\<close>

fun Nodes_loop :: "Hash list \<Rightarrow> (string \<rightharpoonup> Hash list) \<Rightarrow> (string \<rightharpoonup> Hash list)" where
  "Nodes_loop [] mp = mp"
| "Nodes_loop (h # hs) mp =
     Nodes_loop hs (mp(node h \<mapsto> (case mp (node h) of None \<Rightarrow> [] | Some l \<Rightarrow> l) @ [h]))"

definition Nodes :: "Ring \<Rightarrow> (string \<rightharpoonup> Hash list)" where
  "Nodes r = Nodes_loop (hashes r) (\<lambda>k. if nodes r k \<noteq> None then Some [] else None)"

definition Shards :: "Ring \<Rightarrow> Hash list" where
  "Shards r = hashes r"

subsection \<open>Reachable rings\<close>

text \<open>
  The rings a caller can hold: built by \<open>New\<close>, then changed by \<open>Join\<close>, \<open>Leave\<close> and
  \<open>Handoff\<close> calls that returned. A \<open>Leave\<close> step may take any iteration order of the
  remaining keys.
\<close>

inductive reach :: "Ring \<Rightarrow> bool" where
  reach_New: "New sha1 opts = Inr r \<Longrightarrow> reach r"
| reach_Join: "reach r \<Longrightarrow> Join nd r = Inr r' \<Longrightarrow> reach r'"
| reach_Leave:
    "reach r \<Longrightarrow> iteration ks ((nodes r)(nd := None)) \<Longrightarrow> Leave ks nd r = Inr r' \<Longrightarrow>
       reach r'"
| reach_Handoff: "reach r \<Longrightarrow> reach (Handoff nd r)"

subsection \<open>Well-formed rings and the declarative repair rule\<close>

text \<open>
  What \<open>New\<close> establishes and every operation keeps: \<open>q\<close> is positive, the shard vector
  was allocated, and it has \<open>q\<close> entries.
\<close>

definition well_formed :: "Ring \<Rightarrow> bool" where
  "well_formed r = (q r \<noteq> 0 \<and> makeslice 40 (q r) \<and> length (hashes r) = unat (q r))"

text \<open>
  The rule in the specification's words: an unclaimed shard takes the owner of its nearest
  clockwise-preceding claimed shard, with wrap. \<open>preceding hs i\<close> lists the other shards
  in that order: \<open>i - 1\<close> down to 0, then \<open>q - 1\<close> down to \<open>i + 1\<close>.
\<close>

definition claimed :: "Hash \<Rightarrow> bool" where
  "claimed h = (rank h \<noteq> - 1)"

definition preceding :: "Hash list \<Rightarrow> nat \<Rightarrow> Hash list" where
  "preceding hs i = rev (take i hs) @ rev (drop (Suc i) hs)"

definition inherited :: "Hash list \<Rightarrow> nat \<Rightarrow> string" where
  "inherited hs i =
     (case find claimed (preceding hs i) of None \<Rightarrow> node (hs ! i) | Some c \<Rightarrow> node c)"

definition repair_spec :: "Hash list \<Rightarrow> Hash list" where
  "repair_spec hs =
     map (\<lambda>i. if rank (hs ! i) = - 1 then (hs ! i)\<lparr>node := inherited hs i\<rparr> else hs ! i)
       [0..<length hs]"

text \<open>
  The invariant of reachable rings: a token-claimed shard is owned by a member; once a
  shard is claimed, every shard carries the node of some claimed shard; while none is
  claimed, every node field is empty.
\<close>

definition consistent :: "Ring \<Rightarrow> bool" where
  "consistent r =
     (well_formed r
      \<and> (\<forall>e \<in> set (hashes r). claimed e \<longrightarrow> nodes r (node e) \<noteq> None)
      \<and> ((\<exists>c \<in> set (hashes r). claimed c) \<longrightarrow>
           (\<forall>e \<in> set (hashes r). \<exists>c \<in> set (hashes r). claimed c \<and> node c = node e))
      \<and> ((\<forall>c \<in> set (hashes r). \<not> claimed c) \<longrightarrow> (\<forall>e \<in> set (hashes r). node e = [])))"

text \<open>
  \<open>node_only hs hs'\<close>: \<open>hs'\<close> differs from \<open>hs\<close> at most in the \<open>node\<close> of unclaimed
  entries, each taken from an entry of \<open>hs\<close>.
\<close>

definition node_only :: "Hash list \<Rightarrow> Hash list \<Rightarrow> bool" where
  "node_only hs hs' =
     (length hs' = length hs
      \<and> (\<forall>i < length hs. rank (hs' ! i) = rank (hs ! i) \<and> addr (hs' ! i) = addr (hs ! i)
            \<and> hash (hs' ! i) = hash (hs ! i)
            \<and> (claimed (hs ! i) \<longrightarrow> hs' ! i = hs ! i)
            \<and> node (hs' ! i) \<in> node ` set hs))"

text \<open>
  \<open>claims_only nd hs hs'\<close>: every entry of \<open>hs'\<close> is the old one or a claim by \<open>nd\<close>
  with a rank from 0.
\<close>

definition claims_only :: "string \<Rightarrow> Hash list \<Rightarrow> Hash list \<Rightarrow> bool" where
  "claims_only nd hs hs' =
     (length hs' = length hs
      \<and> (\<forall>i < length hs. hs' ! i = hs ! i \<or> (node (hs' ! i) = nd \<and> 0 \<le> rank (hs' ! i))))"

subsection \<open>A small hasher for concrete rings\<close>

text \<open>
  An 8-bit additive checksum, installed with \<open>WithHash\<close>: the digest is the single byte
  that is the sum of the input bytes modulo 256. It is long enough for \<open>m = 8\<close>.
\<close>

definition checksum :: "byte list \<Rightarrow> byte list" where
  "checksum bs = [fold (+) bs 0]"

text \<open>
  A ring with four shards on the 8-bit space, one token per node: \<open>a\<close> claims shard 1,
  \<open>b0\<close> shard 2 and \<open>cc\<close> shard 3; shard 0 is filled by repair. \<open>b0\<close> is then handed
  off. Every step goes through the operations above.
\<close>

definition small_ring :: "error + Ring" where
  "small_ring = New checksum [WithM8, WithQ 4, WithT 1, WithHash checksum]"

definition three_nodes :: "error + Ring" where
  "three_nodes =
     (case small_ring of
        Inl e \<Rightarrow> Inl e
      | Inr r \<Rightarrow> rejoin [''a'', ''b0'', ''cc''] r)"

definition handed_off :: Ring where
  "handed_off = (case three_nodes of Inl e \<Rightarrow> zero_ring | Inr r \<Rightarrow> Handoff ''b0'' r)"

text \<open>The three-node ring with \<open>a\<close> handed off, and the ring after \<open>b0\<close> then leaves.\<close>

definition one_inactive :: Ring where
  "one_inactive = (case three_nodes of Inl e \<Rightarrow> zero_ring | Inr r \<Rightarrow> Handoff ''a'' r)"

definition after_leave :: Ring where
  "after_leave =
     (case Leave [''a'', ''cc''] ''b0'' one_inactive of Inl e \<Rightarrow> zero_ring | Inr r \<Rightarrow> r)"

text \<open>
  The four-shard ring after \<open>a\<close> joined and the token of \<open>cc\<close> was placed, before the
  repair of that second join.
\<close>

definition before_repair :: Ring where
  "before_repair =
     (case small_ring of
        Inl e \<Rightarrow> zero_ring
      | Inr r0 \<Rightarrow>
          (case Join ''a'' r0 of
             Inl e \<Rightarrow> zero_ring
           | Inr r \<Rightarrow>
               (case allocate r ''cc'' [0..sint (t r) - 1] [] (hashes r) of
                  Inl e \<Rightarrow> zero_ring
                | Inr hs \<Rightarrow> r\<lparr>hashes := hs\<rparr>)))"

text \<open>
  The fresh four-shard ring, the ring after \<open>a\<close> joined it, and the ring after \<open>a\<close> left
  again.
\<close>

definition fresh :: Ring where
  "fresh = (case small_ring of Inl e \<Rightarrow> zero_ring | Inr r \<Rightarrow> r)"

definition only_a :: Ring where
  "only_a = (case Join ''a'' fresh of Inl e \<Rightarrow> zero_ring | Inr r \<Rightarrow> r)"

definition left_empty :: Ring where
  "left_empty = (case Leave [] ''a'' only_a of Inl e \<Rightarrow> zero_ring | Inr r \<Rightarrow> r)"

text \<open>
  The four-shard ring with a node on every shard (\<open>0\<close> on shard 0, \<open>a\<close> on 1, \<open>b0\<close>
  on 2, \<open>cc\<close> on 3), after \<open>b0\<close> and \<open>cc\<close> were handed off.
\<close>

definition two_inactive :: Ring where
  "two_inactive =
     (case rejoin [''a'', ''b0'', ''cc'', ''0''] fresh of
        Inl e \<Rightarrow> zero_ring
      | Inr r \<Rightarrow> Handoff ''cc'' (Handoff ''b0'' r))"


subsection \<open>Predicates used in the statements\<close>

text \<open>
  An emitted entry \<open>e\<close> reports the coordinator's \<open>hash\<close> and carries \<open>addr\<close>, \<open>rank\<close>
  and \<open>node\<close> of some shard entry.
\<close>

definition taken_from :: "Hash \<Rightarrow> Hash list \<Rightarrow> Hash \<Rightarrow> bool" where
  "taken_from coord hs e =
     (hash e = hash coord
      \<and> (\<exists>h \<in> set hs. addr e = addr h \<and> rank e = rank h \<and> node e = node h))"

text \<open>
  The handoff rule in words. \<open>sweep r lastShard\<close> lists the \<open>q - 1\<close> shard entries the
  loop walks, from index \<open>lastShard + 1\<close> forward with wrap. An entry is \<open>eligible\<close>
  when the active flag of its node is true and its node is not in the primary list.
  \<open>first_of_node\<close> keeps, in order, the first entry of every node. \<open>stamp\<close> gives an
  entry the coordinator's \<open>hash\<close>. The handoff list is the first \<open>hn\<close> of the stamped
  first eligible entries; the test \<^verbatim>\<open>len(handoff) == hn\<close> never holds for a negative
  \<open>hn\<close>, and then nothing is cut.
\<close>

definition sweep :: "Ring \<Rightarrow> int \<Rightarrow> Hash list" where
  "sweep r lastShard =
     map (\<lambda>i. hashes r ! nat (go_rem (int64 (lastShard + i)) (sint (q r)))) [1..sint (q r) - 1]"

definition eligible :: "Ring \<Rightarrow> Hash list \<Rightarrow> Hash \<Rightarrow> bool" where
  "eligible r primary h = (nodes r (node h) = Some True \<and> node h \<notin> node ` set primary)"

fun first_of_node :: "Hash list \<Rightarrow> Hash list" where
  "first_of_node [] = []"
| "first_of_node (h # hs) = h # first_of_node (filter (\<lambda>x. node x \<noteq> node h) hs)"

definition stamp :: "Hash \<Rightarrow> Hash \<Rightarrow> Hash" where
  "stamp coord h = \<lparr>hash = hash coord, addr = addr h, rank = rank h, node = node h\<rparr>"

definition handoff_spec :: "Ring \<Rightarrow> Hash \<Rightarrow> Hash list \<Rightarrow> int \<Rightarrow> int \<Rightarrow> Hash list" where
  "handoff_spec r coord primary hn lastShard =
     (let found = map (stamp coord)
                    (first_of_node (filter (eligible r primary) (sweep r lastShard)))
      in if 0 < hn then take (nat hn) found else found)"




section \<open>Properties\<close>

subsection \<open>Join order\<close>

text \<open>
  C1. Claimed: for a fixed configuration and a fixed set of nodes the shard vector does not
  depend on the order of the joins. The repository's \<^verbatim>\<open>TestJoin\<close> asserts it. The code
  keeps the incumbent when two tokens of the same rank have the same address: with
  \<open>m = 8\<close>, \<open>q = 2\<close>, \<open>t = 1\<close> and the checksum hasher, the nodes \<open>ab\<close> and \<open>ba\<close> both
  have the rank-0 token 195, and whoever joins first owns every shard.
\<close>

theorem C1_join_order_changes_shards:
  "(case New checksum [WithM8, WithQ 2, WithT 1, WithHash checksum] of
      Inl e \<Rightarrow> False
    | Inr r \<Rightarrow>
        (case Join ''ab'' r of
           Inl e \<Rightarrow> False
         | Inr r1 \<Rightarrow>
             (case Join ''ba'' r1 of
                Inl e \<Rightarrow> False
              | Inr r2 \<Rightarrow>
                  (case Join ''ba'' r of
                     Inl e \<Rightarrow> False
                   | Inr r3 \<Rightarrow>
                       (case Join ''ab'' r3 of
                          Inl e \<Rightarrow> False
                        | Inr r4 \<Rightarrow>
                            map node (Shards r2) = [''ab'', ''ab'']
                            \<and> map node (Shards r4) = [''ba'', ''ba'']
                            \<and> map rank (Shards r2) = map rank (Shards r4)
                            \<and> map (nodes r2) [''ab'', ''ba''] = [Some True, Some True]
                            \<and> map (nodes r4) [''ab'', ''ba''] = [Some True, Some True])))))"
  by code_simp

subsection \<open>Lookup\<close>

text \<open>
  C7. Claimed: \<open>Lookup(a)\<close> returns shard \<open>i\<close> for every address of shard \<open>i\<close>, and wraps
  at the top. With \<open>m = 64\<close> and \<open>q = 1\<close> the arc \<open>(2^64 - 1) / 1 + 1\<close> wraps to 0 in
  \<^verbatim>\<open>uint64\<close>; the ring is constructed, has its one shard, and \<open>Lookup(0)\<close> panics with
  a division by zero instead of returning that shard.
\<close>

theorem C7_lookup_single_shard_divides_by_zero:
  "(case New checksum [WithM64, WithQ 1] of
      Inl e \<Rightarrow> False
    | Inr r \<Rightarrow>
        arc r = 0 \<and> length (Shards r) = 1 \<and> Lookup 0 r = Inl DivideByZero)"
  by code_simp

subsection \<open>After and Before\<close>

text \<open>
  C8. Claimed: \<open>After(n, addr)\<close> and \<open>Before(n, addr)\<close> return \<open>min(n, q)\<close> entries for
  every \<open>n\<close>. The loops test \<open>len(seq) == n\<close> only after the append, so for \<open>n = 0\<close>
  they never leave early: on the default ring (\<open>q = 8\<close>) both return all 8 shard entries.
\<close>

theorem C8_after_zero_returns_whole_ring:
  "(case New checksum [] of
      Inl e \<Rightarrow> False
    | Inr r \<Rightarrow>
        (case After 0 0 r of
           Inl e \<Rightarrow> False
         | Inr seq \<Rightarrow>
             (case Before 0 0 r of
                Inl e \<Rightarrow> False
              | Inr seq' \<Rightarrow>
                  min 0 (q r) = 0 \<and> length seq = 8 \<and> seq = Shards r \<and> length seq' = 8)))"
  by code_simp

subsection \<open>SuccessorOf\<close>

lemma index_Inr_set: "index xs i = Inr x \<Longrightarrow> x \<in> set xs"
  by (auto simp: index_def split: if_splits)

lemma contains_iff: "contains hs nd \<longleftrightarrow> nd \<in> node ` set hs"
  by (induction hs) auto

lemma primaryNodes_set:
  "e \<in> set (primaryNodes r coord hs) \<Longrightarrow> active r (node e) \<and> taken_from coord hs e"
  by (induction hs) (auto simp: taken_from_def split: if_splits)

lemma distinct_loop_subset:
  "distinct_loop r n fromShard is l0 head0 = Inr (l, head) \<Longrightarrow>
     set head \<subseteq> set head0 \<union> set (hashes r)"
proof (induction "is" arbitrary: l0 head0)
  case Nil
  then show ?case by auto
next
  case (Cons i "is")
  from Cons.prems obtain h where
    ix: "index (hashes r) (go_rem (int64 (fromShard + i)) (sint (q r))) = Inr h"
    by (auto split: sum.splits)
  define h1 where "h1 = (if \<not> contains head0 (node h) then head0 @ [h] else head0)"
  have s1: "set h1 \<subseteq> set head0 \<union> set (hashes r)"
    using index_Inr_set[OF ix] by (auto simp: h1_def)
  from Cons.prems have
    "(if int (length h1) = sint n then Inr (go_rem (int64 (fromShard + i)) (sint (q r)), h1)
      else distinct_loop r n fromShard is (go_rem (int64 (fromShard + i)) (sint (q r))) h1)
     = Inr (l, head)"
    by (simp only: distinct_loop.simps ix sum.case Let_def h1_def)
  then show ?case
    using s1 Cons.IH[of _ h1] by (auto split: if_splits)
qed

lemma distinctNodes_subset:
  "distinctNodes r n fromShard = Inr (l, head) \<Longrightarrow> set head \<subseteq> set (hashes r)"
  using distinct_loop_subset[of r n fromShard _ 0 "[]" l head]
  by (auto simp: distinctNodes_def split: if_splits)

text \<open>
  The handoff loop keeps any property \<open>P\<close> that holds of every entry it can append, and
  never appends a node twice.
\<close>

lemma handoff_loop_inv:
  "handoff_loop r coord primary hn l is h0 = Inr handoff \<Longrightarrow>
   (\<forall>e \<in> set h0. P e) \<Longrightarrow> distinct (map node h0) \<Longrightarrow>
   (\<And>e. taken_from coord (hashes r) e \<Longrightarrow> active r (node e) \<Longrightarrow>
         \<not> contains primary (node e) \<Longrightarrow> P e) \<Longrightarrow>
   (\<forall>e \<in> set handoff. P e) \<and> distinct (map node handoff)"
proof (induction "is" arbitrary: h0)
  case Nil
  then show ?case by auto
next
  case (Cons i "is")
  from Cons.prems(1) obtain h where
    ix: "index (hashes r) (go_rem (int64 (l + i)) (sint (q r))) = Inr h"
    by (auto split: sum.splits)
  define e where "e = \<lparr>hash = hash coord, addr = addr h, rank = rank h, node = node h\<rparr>"
  define h1 where
    "h1 = (if active r (node h) \<and> \<not> contains h0 (node h) \<and> \<not> contains primary (node h)
           then h0 @ [e] else h0)"
  have hin: "h \<in> set (hashes r)" using ix by (rule index_Inr_set)
  have tf: "taken_from coord (hashes r) e"
    using hin by (auto simp: taken_from_def e_def)
  have P1: "\<forall>x \<in> set h1. P x"
    using Cons.prems(2) Cons.prems(4)[OF tf] by (auto simp: h1_def e_def)
  have D1: "distinct (map node h1)"
    using Cons.prems(3) by (auto simp: h1_def e_def contains_iff)
  from Cons.prems(1) ix have
    "(if int (length h1) = hn then Inr h1 else handoff_loop r coord primary hn l is h1)
     = Inr handoff"
    by (simp only: handoff_loop.simps sum.case Let_def h1_def e_def)
  then show ?case
    using P1 D1 Cons.IH[of h1] Cons.prems(4) by (auto split: if_splits)
qed

lemma SuccessorOf_cases:
  assumes "SuccessorOf n key r = Inr (primary, handoff)"
  obtains shard a coord l head where
    "address r key = Inr (shard, a)" and "index (hashes r) shard = Inr coord" and
    "distinctNodes r n shard = Inr (l, head)" and "primary = primaryNodes r coord head" and
    "handoff = [] \<or>
     handoff_loop r coord primary (sint n - int (length primary)) l [1..sint (q r) - 1] []
       = Inr handoff"
  using assms by (auto simp: SuccessorOf_def split: sum.splits prod.splits if_splits)

lemma handed_off_routes:
  "SuccessorOf 2 ''a'' handed_off =
     Inr ([\<lparr>hash = 127, addr = 97, rank = 0, node = ''a''\<rparr>],
          [\<lparr>hash = 127, addr = 198, rank = 0, node = ''cc''\<rparr>])"
  by code_simp

text \<open>
  C6. Every entry returned by \<open>SuccessorOf\<close>, primary or handoff, has the \<open>hash\<close> of the
  coordinator shard (the entry \<open>LookupKey\<close> returns for the key) and the \<open>addr\<close>, \<open>rank\<close>
  and \<open>node\<close> of a shard entry of the ring.
\<close>

theorem C6_successor_entries:
  assumes "SuccessorOf n key r = Inr (primary, handoff)"
  shows "\<exists>coord. LookupKey key r = Inr coord \<and>
           (\<forall>e \<in> set primary \<union> set handoff. taken_from coord (hashes r) e)"
proof -
  from assms obtain shard a coord l head where
    ad: "address r key = Inr (shard, a)" and
    co: "index (hashes r) shard = Inr coord" and
    dn: "distinctNodes r n shard = Inr (l, head)" and
    pr: "primary = primaryNodes r coord head" and
    ho: "handoff = [] \<or>
         handoff_loop r coord primary (sint n - int (length primary)) l [1..sint (q r) - 1] []
           = Inr handoff"
    by (rule SuccessorOf_cases)
  have sub: "set head \<subseteq> set (hashes r)" using dn by (rule distinctNodes_subset)
  have p: "\<forall>e \<in> set primary. taken_from coord (hashes r) e"
    using primaryNodes_set[of _ r coord head] sub unfolding pr taken_from_def by blast
  have h: "\<forall>e \<in> set handoff. taken_from coord (hashes r) e"
    using ho
  proof
    assume "handoff = []" then show ?thesis by simp
  next
    assume "handoff_loop r coord primary (sint n - int (length primary)) l
              [1..sint (q r) - 1] [] = Inr handoff"
    from handoff_loop_inv[OF this, of "taken_from coord (hashes r)"] show ?thesis by simp
  qed
  have "LookupKey key r = Inr coord" using ad co by (simp add: LookupKey_def)
  with p h show ?thesis by blast
qed

theorem C6_successor_entries_witness:
  "SuccessorOf 2 ''a'' handed_off =
     Inr ([\<lparr>hash = 127, addr = 97, rank = 0, node = ''a''\<rparr>],
          [\<lparr>hash = 127, addr = 198, rank = 0, node = ''cc''\<rparr>])
   \<and> (\<exists>coord. LookupKey ''a'' handed_off = Inr coord
        \<and> (\<forall>e \<in> set [\<lparr>hash = 127, addr = 97, rank = 0, node = ''a''\<rparr>]
                  \<union> set [\<lparr>hash = 127, addr = 198, rank = 0, node = ''cc''\<rparr>].
              taken_from coord (hashes handed_off) e))"
  using C6_successor_entries[OF handed_off_routes] handed_off_routes by simp

text \<open>
  C2. Claimed: a shard entry is eligible for the handoff list when its node is a member,
  active or not. The loop tests \<^verbatim>\<open>ring.nodes[hash.node]\<close>, the value of the flag, so
  only active members are eligible. On the ring above, with \<open>b0\<close> handed off,
  \<open>SuccessorOf(3, "a")\<close> finds two primaries and returns an empty handoff list, although
  \<open>b0\<close> is a member, owns shard 2 and is in neither list.
\<close>

theorem C2_inactive_member_not_in_handoff:
  "SuccessorOf 3 ''a'' handed_off =
     Inr ([\<lparr>hash = 127, addr = 97, rank = 0, node = ''a''\<rparr>,
           \<lparr>hash = 127, addr = 198, rank = 0, node = ''cc''\<rparr>], [])
   \<and> nodes handed_off ''b0'' = Some False
   \<and> map node (Shards handed_off) = [''cc'', ''a'', ''b0'', ''cc'']"
  by code_simp

text \<open>
  The loop against the rule: while the list is shorter than \<open>hn\<close> the loop returns the
  first \<open>hn\<close> stamped first eligible entries of the walk; with \<open>hn\<close> below the length
  it returns all of them. A loop that did not stop at the count read every entry of the
  walk.
\<close>

lemma node_stamp: "node (stamp c h) = node h"
  by (simp add: stamp_def)

lemma step_unfold:
  "h0 @ map (stamp c) (first_of_node (filter (\<lambda>x. eligible r p x \<and> node x \<notin> node ` set h0) (h # rest)))
   = (if active r (node h) \<and> \<not> contains h0 (node h) \<and> \<not> contains p (node h)
      then h0 @ [stamp c h] else h0)
     @ map (stamp c) (first_of_node (filter (\<lambda>x. eligible r p x \<and> node x \<notin> node `
          set (if active r (node h) \<and> \<not> contains h0 (node h) \<and> \<not> contains p (node h)
      then h0 @ [stamp c h] else h0)) rest))"
  by (auto simp: eligible_def active_def contains_iff node_stamp conj_commute conj_left_commute
           intro!: arg_cong[where f = first_of_node] filter_cong)


lemma nodes_first_of_node: "node ` set (first_of_node xs) = node ` set xs"
proof (induction xs rule: first_of_node.induct)
  case 1
  then show ?case by simp
next
  case (2 h hs)
  then show ?case by auto
qed

lemma set_first_of_node: "set (first_of_node xs) \<subseteq> set xs"
proof (induction xs rule: first_of_node.induct)
  case 1
  then show ?case by simp
next
  case (2 h hs)
  then show ?case by auto
qed

lemma handoff_loop_take:
  "handoff_loop r coord primary hn l is h0 = Inr handoff \<Longrightarrow> int (length h0) < hn \<Longrightarrow>
   handoff = take (nat hn) (h0 @ map (stamp coord) (first_of_node
      (filter (\<lambda>x. eligible r primary x \<and> node x \<notin> node ` set h0)
         (map (\<lambda>i. hashes r ! nat (go_rem (int64 (l + i)) (sint (q r)))) is))))"
proof (induction "is" arbitrary: h0)
  case Nil
  then show ?case by simp
next
  case (Cons i "is")
  from Cons.prems(1) obtain h where
    ix: "index (hashes r) (go_rem (int64 (l + i)) (sint (q r))) = Inr h"
    by (auto split: sum.splits)
  have hh: "hashes r ! nat (go_rem (int64 (l + i)) (sint (q r))) = h"
    using ix by (auto simp: index_def split: if_splits)
  define h1 where
    "h1 = (if active r (node h) \<and> \<not> contains h0 (node h) \<and> \<not> contains primary (node h)
           then h0 @ [stamp coord h] else h0)"
  define tl where "tl = map (stamp coord) (first_of_node
      (filter (\<lambda>x. eligible r primary x \<and> node x \<notin> node ` set h1)
         (map (\<lambda>i. hashes r ! nat (go_rem (int64 (l + i)) (sint (q r)))) is)))"
  have unf: "h0 @ map (stamp coord) (first_of_node
      (filter (\<lambda>x. eligible r primary x \<and> node x \<notin> node ` set h0)
         (map (\<lambda>i. hashes r ! nat (go_rem (int64 (l + i)) (sint (q r)))) (i # is))))
      = h1 @ tl"
    unfolding h1_def tl_def list.map hh by (rule step_unfold)
  have len: "int (length h1) \<le> hn" using Cons.prems(2) by (auto simp: h1_def)
  from Cons.prems(1) ix have lp:
    "(if int (length h1) = hn then Inr h1 else handoff_loop r coord primary hn l is h1)
     = Inr handoff"
    by (simp only: handoff_loop.simps sum.case Let_def h1_def stamp_def)
  show ?case
  proof (cases "int (length h1) = hn")
    case True
    then have "handoff = h1" using lp by simp
    moreover have "take (nat hn) (h1 @ tl) = h1" using True by auto
    ultimately show ?thesis unfolding unf by simp
  next
    case False
    then have "handoff_loop r coord primary hn l is h1 = Inr handoff" using lp by simp
    moreover have "int (length h1) < hn" using len False by simp
    ultimately have "handoff = take (nat hn) (h1 @ tl)"
      unfolding tl_def by (rule Cons.IH)
    then show ?thesis unfolding unf .
  qed
qed

lemma handoff_loop_all:
  "handoff_loop r coord primary hn l is h0 = Inr handoff \<Longrightarrow> hn < int (length h0) \<Longrightarrow>
   handoff = h0 @ map (stamp coord) (first_of_node
      (filter (\<lambda>x. eligible r primary x \<and> node x \<notin> node ` set h0)
         (map (\<lambda>i. hashes r ! nat (go_rem (int64 (l + i)) (sint (q r)))) is)))"
proof (induction "is" arbitrary: h0)
  case Nil
  then show ?case by simp
next
  case (Cons i "is")
  from Cons.prems(1) obtain h where
    ix: "index (hashes r) (go_rem (int64 (l + i)) (sint (q r))) = Inr h"
    by (auto split: sum.splits)
  have hh: "hashes r ! nat (go_rem (int64 (l + i)) (sint (q r))) = h"
    using ix by (auto simp: index_def split: if_splits)
  define h1 where
    "h1 = (if active r (node h) \<and> \<not> contains h0 (node h) \<and> \<not> contains primary (node h)
           then h0 @ [stamp coord h] else h0)"
  define tl where "tl = map (stamp coord) (first_of_node
      (filter (\<lambda>x. eligible r primary x \<and> node x \<notin> node ` set h1)
         (map (\<lambda>i. hashes r ! nat (go_rem (int64 (l + i)) (sint (q r)))) is)))"
  have unf: "h0 @ map (stamp coord) (first_of_node
      (filter (\<lambda>x. eligible r primary x \<and> node x \<notin> node ` set h0)
         (map (\<lambda>i. hashes r ! nat (go_rem (int64 (l + i)) (sint (q r)))) (i # is))))
      = h1 @ tl"
    unfolding h1_def tl_def list.map hh by (rule step_unfold)
  have len: "hn < int (length h1)" using Cons.prems(2) by (auto simp: h1_def)
  from Cons.prems(1) ix have lp:
    "(if int (length h1) = hn then Inr h1 else handoff_loop r coord primary hn l is h1)
     = Inr handoff"
    by (simp only: handoff_loop.simps sum.case Let_def h1_def stamp_def)
  then have "handoff_loop r coord primary hn l is h1 = Inr handoff" using len by simp
  then have "handoff = h1 @ tl" unfolding tl_def using len by (rule Cons.IH)
  then show ?case unfolding unf .
qed

lemma handoff_loop_eq_spec:
  assumes "handoff_loop r coord primary hn l [1..sint (q r) - 1] [] = Inr handoff"
      and "hn \<noteq> 0"
  shows "handoff = handoff_spec r coord primary hn l"
proof (cases "0 < hn")
  case True
  from handoff_loop_take[OF assms(1)] True show ?thesis
    by (simp add: handoff_spec_def sweep_def Let_def)
next
  case False
  then have "hn < 0" using assms(2) by simp
  with handoff_loop_all[OF assms(1)] show ?thesis
    by (simp add: handoff_spec_def sweep_def Let_def)
qed

lemma handoff_loop_in_range:
  "handoff_loop r coord primary hn l is h0 = Inr handoff \<Longrightarrow> int (length handoff) \<noteq> hn \<Longrightarrow>
   \<forall>i \<in> set is. hashes r ! nat (go_rem (int64 (l + i)) (sint (q r))) \<in> set (hashes r)"
proof (induction "is" arbitrary: h0)
  case Nil
  then show ?case by simp
next
  case (Cons i "is")
  from Cons.prems(1) obtain h where
    ix: "index (hashes r) (go_rem (int64 (l + i)) (sint (q r))) = Inr h"
    by (auto split: sum.splits)
  have hh: "hashes r ! nat (go_rem (int64 (l + i)) (sint (q r))) = h"
    using ix by (auto simp: index_def split: if_splits)
  define h1 where
    "h1 = (if active r (node h) \<and> \<not> contains h0 (node h) \<and> \<not> contains primary (node h)
           then h0 @ [\<lparr>hash = hash coord, addr = addr h, rank = rank h, node = node h\<rparr>]
           else h0)"
  from Cons.prems(1) ix have lp:
    "(if int (length h1) = hn then Inr h1 else handoff_loop r coord primary hn l is h1)
     = Inr handoff"
    by (simp only: handoff_loop.simps sum.case Let_def h1_def)
  have "int (length h1) \<noteq> hn" using lp Cons.prems(2) by (auto split: if_splits)
  then have "handoff_loop r coord primary hn l is h1 = Inr handoff" using lp by simp
  from Cons.IH[OF this Cons.prems(2)] index_Inr_set[OF ix] hh show ?case by simp
qed

lemma SuccessorOf_split:
  assumes "SuccessorOf n key r = Inr (primary, handoff)"
  obtains shard a coord l head where
    "address r key = Inr (shard, a)" and "LookupKey key r = Inr coord" and
    "distinctNodes r n shard = Inr (l, head)" and "primary = primaryNodes r coord head" and
    "(int (length primary) = sint n \<and> handoff = []) \<or>
     (int (length primary) \<noteq> sint n \<and>
      handoff_loop r coord primary (sint n - int (length primary)) l [1..sint (q r) - 1] []
        = Inr handoff)"
  using assms
  by (auto simp: SuccessorOf_def LookupKey_def split: sum.splits prod.splits if_splits)

lemma two_inactive_routes:
  "SuccessorOf 3 ''a'' two_inactive =
     Inr ([\<lparr>hash = 127, addr = 97, rank = 0, node = ''a''\<rparr>],
          [\<lparr>hash = 127, addr = 48, rank = 0, node = ''0''\<rparr>])"
  by code_simp


lemma two_inactive_flags:
  "nodes two_inactive ''b0'' = Some False \<and> nodes two_inactive ''cc'' = Some False"
  by code_simp

text \<open>
  C2, amended. When \<open>SuccessorOf(n, key)\<close> returns, the primary list is built from the
  entries \<open>distinctNodes\<close> returned, up to shard \<open>lastShard\<close>, and

  \<^item> with \<open>n\<close> primaries the handoff list is empty; otherwise it is exactly the list of
    the rule \<open>handoff_spec\<close>: of the \<open>q - 1\<close> shard entries after \<open>lastShard\<close>, those
    whose node has a true active flag and is not in the primary list, the first entry of
    every node, in walk order, with the coordinator's \<open>hash\<close>, cut at
    \<open>n - len(primary)\<close> entries;

  \<^item> so every handoff entry carries \<open>addr\<close>, \<open>rank\<close> and \<open>node\<close> of a shard entry, its
    node is a member whose active flag is true (a handed-off member is never listed) and
    is not in the primary list, and no node is listed twice;

  \<^item> and when the two lists together are short of \<open>n\<close> entries, every entry of the walk
    is a shard entry of the ring, and each of them with a true active flag and a node
    outside the primary list has its node in the handoff list.
\<close>

theorem C2_handoff_list_rule:
  assumes "SuccessorOf n key r = Inr (primary, handoff)"
  shows "\<exists>shard a coord lastShard head.
           address r key = Inr (shard, a) \<and> LookupKey key r = Inr coord
         \<and> distinctNodes r n shard = Inr (lastShard, head)
         \<and> primary = primaryNodes r coord head
         \<and> handoff =
             (if int (length primary) = sint n then []
              else handoff_spec r coord primary (sint n - int (length primary)) lastShard)
         \<and> (\<forall>e \<in> set handoff. taken_from coord (hashes r) e
               \<and> nodes r (node e) = Some True \<and> \<not> contains primary (node e))
         \<and> distinct (map node handoff)
         \<and> (int (length primary) + int (length handoff) \<noteq> sint n \<longrightarrow>
              set (sweep r lastShard) \<subseteq> set (hashes r)
              \<and> (\<forall>h \<in> set (sweep r lastShard).
                    nodes r (node h) = Some True \<and> \<not> contains primary (node h)
                    \<longrightarrow> contains handoff (node h)))"
proof -
  from assms obtain shard a coord l head where
    ad: "address r key = Inr (shard, a)" and
    lk: "LookupKey key r = Inr coord" and
    dn: "distinctNodes r n shard = Inr (l, head)" and
    pr: "primary = primaryNodes r coord head" and
    hd: "(int (length primary) = sint n \<and> handoff = []) \<or>
         (int (length primary) \<noteq> sint n \<and>
          handoff_loop r coord primary (sint n - int (length primary)) l
            [1..sint (q r) - 1] [] = Inr handoff)"
    by (rule SuccessorOf_split)
  have h0: "handoff = []" if "int (length primary) = sint n"
    using hd that by simp
  have h1: "handoff_loop r coord primary (sint n - int (length primary)) l
              [1..sint (q r) - 1] [] = Inr handoff" if "int (length primary) \<noteq> sint n"
    using hd that by simp
  have eq: "handoff =
             (if int (length primary) = sint n then []
              else handoff_spec r coord primary (sint n - int (length primary)) l)"
    using h0 h1 handoff_loop_eq_spec[of r coord primary "sint n - int (length primary)" l handoff]
    by auto
  have snd: "(\<forall>e \<in> set handoff. taken_from coord (hashes r) e
               \<and> nodes r (node e) = Some True \<and> \<not> contains primary (node e))
             \<and> distinct (map node handoff)"
  proof (cases "int (length primary) = sint n")
    case True
    then show ?thesis using h0 by simp
  next
    case False
    from handoff_loop_inv[OF h1[OF False],
        of "\<lambda>e. taken_from coord (hashes r) e
               \<and> nodes r (node e) = Some True \<and> \<not> contains primary (node e)"]
    show ?thesis by (simp add: active_def)
  qed
  have cmp: "set (sweep r l) \<subseteq> set (hashes r)
              \<and> (\<forall>h \<in> set (sweep r l).
                    nodes r (node h) = Some True \<and> \<not> contains primary (node h)
                    \<longrightarrow> contains handoff (node h))"
    if tot: "int (length primary) + int (length handoff) \<noteq> sint n"
  proof -
    have ne: "int (length primary) \<noteq> sint n" using tot h0 by auto
    have lp: "handoff_loop r coord primary (sint n - int (length primary)) l
                [1..sint (q r) - 1] [] = Inr handoff"
      using h1[OF ne] .
    have nl: "int (length handoff) \<noteq> sint n - int (length primary)" using tot by simp
    have rng: "set (sweep r l) \<subseteq> set (hashes r)"
      using handoff_loop_in_range[OF lp nl] by (auto simp: sweep_def)
    define found where "found = map (stamp coord)
                    (first_of_node (filter (eligible r primary) (sweep r l)))"
    have hs: "handoff = (if 0 < sint n - int (length primary)
                          then take (nat (sint n - int (length primary))) found else found)"
      using eq ne by (simp add: handoff_spec_def Let_def found_def)
    have "handoff = found"
    proof (cases "0 < sint n - int (length primary)")
      case True
      then have t: "handoff = take (nat (sint n - int (length primary))) found"
        using hs by simp
      show ?thesis
      proof (cases "nat (sint n - int (length primary)) \<le> length found")
        case True
        then have "length handoff = nat (sint n - int (length primary))"
          unfolding t by simp
        then show ?thesis using nl \<open>0 < sint n - int (length primary)\<close> by simp
      next
        case False
        then show ?thesis unfolding t by simp
      qed
    next
      case False
      then show ?thesis using hs by simp
    qed
    then have "node ` set handoff = node ` set (filter (eligible r primary) (sweep r l))"
      using nodes_first_of_node[of "filter (eligible r primary) (sweep r l)"]
      by (simp add: found_def image_image node_stamp)
    then have "\<forall>h \<in> set (sweep r l).
                    nodes r (node h) = Some True \<and> \<not> contains primary (node h)
                    \<longrightarrow> contains handoff (node h)"
      by (auto simp: contains_iff eligible_def)
    with rng show ?thesis by simp
  qed
  from ad lk dn pr eq snd cmp show ?thesis by blast
qed

theorem C2_handoff_list_rule_witness:
  "SuccessorOf 3 ''a'' two_inactive =
     Inr ([\<lparr>hash = 127, addr = 97, rank = 0, node = ''a''\<rparr>],
          [\<lparr>hash = 127, addr = 48, rank = 0, node = ''0''\<rparr>])
   \<and> nodes two_inactive ''b0'' = Some False \<and> nodes two_inactive ''cc'' = Some False
   \<and> (\<exists>shard a coord lastShard head.
         address two_inactive ''a'' = Inr (shard, a)
       \<and> LookupKey ''a'' two_inactive = Inr coord
       \<and> distinctNodes two_inactive 3 shard = Inr (lastShard, head)
       \<and> [\<lparr>hash = 127, addr = 97, rank = 0, node = ''a''\<rparr>]
           = primaryNodes two_inactive coord head
       \<and> [\<lparr>hash = 127, addr = 48, rank = 0, node = ''0''\<rparr>]
           = handoff_spec two_inactive coord
               [\<lparr>hash = 127, addr = 97, rank = 0, node = ''a''\<rparr>] 2 lastShard
       \<and> nodes two_inactive ''0'' = Some True
       \<and> set (sweep two_inactive lastShard) \<subseteq> set (hashes two_inactive))"
  using C2_handoff_list_rule[OF two_inactive_routes] two_inactive_routes two_inactive_flags
  by simp blast

subsection \<open>Membership after Join and Leave\<close>

lemma not_isl_Inr: "\<not> isl x \<Longrightarrow> \<exists>y. x = Inr y"
  by (cases x) auto

lemma repair_fields: "repair r = Inr r' \<Longrightarrow> \<exists>hs. r' = r\<lparr>hashes := hs\<rparr>"
  by (auto simp: repair_def split: sum.splits if_splits)

lemma Join_fields:
  assumes "Join nd r = Inr r'"
  shows "\<exists>hs. r' = r\<lparr>hashes := hs, nodes := (nodes r)(nd \<mapsto> True)\<rparr>"
proof (cases "nodes r nd = None")
  case True
  then show ?thesis
    using assms by (auto simp: Join_def split: sum.splits dest!: repair_fields)
next
  case False
  then have "r' = r\<lparr>hashes := hashes r, nodes := (nodes r)(nd \<mapsto> True)\<rparr>"
    using assms by (auto simp: Join_def)
  then show ?thesis by blast
qed

lemma Join_nodes: "Join nd r = Inr r' \<Longrightarrow> nodes r' = (nodes r)(nd \<mapsto> True)"
  by (auto dest: Join_fields)

lemma rejoin_nodes:
  "rejoin ks r = Inr r' \<Longrightarrow>
     nodes r' = (\<lambda>k. if k \<in> set ks then Some True else nodes r k)"
proof (induction ks arbitrary: r)
  case Nil
  then show ?case by simp
next
  case (Cons k ks)
  from Cons.prems obtain r1 where j: "Join k r = Inr r1" and rj: "rejoin ks r1 = Inr r'"
    by (auto split: sum.splits)
  show ?case
    using Cons.IH[OF rj] Join_nodes[OF j] by (auto simp: fun_eq_iff)
qed

lemma empty_nodes: "empty r = Inr r0 \<Longrightarrow> nodes r0 = Map.empty"
  by (auto simp: empty_def split: sum.splits if_splits)

lemma three_nodes_ok: "\<not> isl three_nodes"
  by code_simp

lemma nodes_one_inactive:
  "nodes one_inactive =
     (\<lambda>k. if k = ''a'' then Some False
          else if k \<in> {''b0'', ''cc''} then Some True else None)"
proof -
  from three_nodes_ok obtain r3 where r3: "three_nodes = Inr r3"
    by (blast dest: not_isl_Inr)
  have "\<not> isl small_ring" by code_simp
  then obtain r0 where r0: "small_ring = Inr r0" by (blast dest: not_isl_Inr)
  have n0: "nodes r0 = Map.empty"
    using r0 by (auto simp: small_ring_def New_def Let_def empty_def split: sum.splits if_splits)
  have "rejoin [''a'', ''b0'', ''cc''] r0 = Inr r3"
    using r3 unfolding three_nodes_def r0 by simp
  from rejoin_nodes[OF this] n0 show ?thesis
    by (auto simp: one_inactive_def r3 Handoff_def fun_eq_iff)
qed

lemma leave_ok: "Leave [''a'', ''cc''] ''b0'' one_inactive = Inr after_leave"
proof -
  have "\<not> isl (Leave [''a'', ''cc''] ''b0'' one_inactive)" by code_simp
  then obtain y where "Leave [''a'', ''cc''] ''b0'' one_inactive = Inr y"
    by (blast dest: not_isl_Inr)
  then show ?thesis by (simp add: after_leave_def)
qed

text \<open>
  C9. When \<open>Leave(x)\<close> completes on a ring of which \<open>x\<close> was a member, the members are
  the old ones without \<open>x\<close>, and every one of them has the active flag true, whatever
  order the rebuild iterated in: a member that was in handoff mode is active again.
\<close>

theorem C9_leave_reactivates_members:
  assumes "nodes r x \<noteq> None" and "iteration ks ((nodes r)(x := None))"
    and "Leave ks x r = Inr r'"
  shows "dom (nodes r') = dom (nodes r) - {x}
         \<and> (\<forall>k \<in> dom (nodes r'). nodes r' k = Some True)"
proof -
  from assms(1,3) obtain r0 where e: "empty r = Inr r0" and rj: "rejoin ks r0 = Inr r'"
    by (auto simp: Leave_def split: sum.splits)
  have n: "nodes r' = (\<lambda>k. if k \<in> set ks then Some True else None)"
    using rejoin_nodes[OF rj] empty_nodes[OF e] by (simp add: fun_eq_iff)
  have s: "set ks = dom (nodes r) - {x}"
    using assms(2) by (auto simp: iteration_def)
  show ?thesis unfolding n using s by (auto simp: dom_def split: if_splits)
qed

theorem C9_leave_reactivates_members_witness:
  "nodes one_inactive ''b0'' \<noteq> None
   \<and> iteration [''a'', ''cc''] ((nodes one_inactive)(''b0'' := None))
   \<and> Leave [''a'', ''cc''] ''b0'' one_inactive = Inr after_leave
   \<and> nodes one_inactive ''a'' = Some False
   \<and> dom (nodes after_leave) = dom (nodes one_inactive) - {''b0''}
   \<and> nodes after_leave ''a'' = Some True \<and> nodes after_leave ''cc'' = Some True"
proof -
  have a: "nodes one_inactive ''b0'' \<noteq> None" by (simp add: nodes_one_inactive)
  have b: "iteration [''a'', ''cc''] ((nodes one_inactive)(''b0'' := None))"
    by (auto simp: iteration_def nodes_one_inactive dom_def split: if_splits)
  have d: "dom (nodes after_leave) = {''a'', ''cc''}"
    using C9_leave_reactivates_members[OF a b leave_ok]
    by (auto simp: nodes_one_inactive dom_def split: if_splits)
  show ?thesis
    using C9_leave_reactivates_members[OF a b leave_ok] a b leave_ok d
    by (auto simp: nodes_one_inactive)
qed

subsection \<open>Repair\<close>

lemma find_append:
  "find P (xs @ ys) = (case find P xs of None \<Rightarrow> find P ys | Some x \<Rightarrow> Some x)"
  by (induction xs) auto

lemma index_nat: "i < length xs \<Longrightarrow> index xs (int i) = Inr (xs ! i)"
  by (simp add: index_def)

lemma sint_small: "uint (w :: u64) < 2 ^ 63 \<Longrightarrow> sint w = int (unat w)"
proof -
  assume a: "uint w < 2 ^ 63"
  have "signed_take_bit 63 (uint w) = uint w"
  proof (rule signed_take_bit_int_eq_self)
    have "- (2 ^ 63) \<le> (0::int)" by simp
    also have "0 \<le> uint w" by simp
    finally show "- (2 ^ 63) \<le> uint w" .
    show "uint w < 2 ^ 63" by (rule a)
  qed
  then show ?thesis by (simp add: sint_uint)
qed

lemma repair_head_find:
  "hs \<noteq> [] \<Longrightarrow> \<forall>j \<in> set js. j < length hs \<Longrightarrow>
   repair_head hs js =
     Inr (case find claimed (map ((!) hs) js) of
            None \<Rightarrow> hs
          | Some c \<Rightarrow> hs[0 := (hs ! 0)\<lparr>node := node c\<rparr>])"
  by (induction js) (auto simp: index_nat updateNode_def claimed_def index_def)

lemma map_nth_from_one: "map ((!) hs) [Suc 0..<length hs] = drop (Suc 0) hs"
proof -
  have "drop 1 hs = drop 1 (map ((!) hs) [0..<length hs])" by (simp add: map_nth)
  also have "\<dots> = map ((!) hs) [1..<length hs]" by (simp add: drop_map del: drop_Suc_Cons)
  finally show ?thesis by simp
qed

lemma repair_spec_nth:
  "i < length hs \<Longrightarrow>
   repair_spec hs ! i =
     (if rank (hs ! i) = - 1 then (hs ! i)\<lparr>node := inherited hs i\<rparr> else hs ! i)"
  by (simp add: repair_spec_def)

lemma length_repair_spec: "length (repair_spec hs) = length hs"
  by (simp add: repair_spec_def)

lemma repair_head_spec:
  assumes "hs \<noteq> []" and "rank (hs ! 0) = - 1"
  shows "repair_head hs (rev [1..<length hs]) = Inr (hs[0 := repair_spec hs ! 0])"
proof -
  have m: "map ((!) hs) (rev [1..<length hs]) = preceding hs 0"
    by (simp add: rev_map[symmetric] map_nth_from_one preceding_def)
  have "repair_head hs (rev [1..<length hs]) =
     Inr (case find claimed (preceding hs 0) of
            None \<Rightarrow> hs
          | Some c \<Rightarrow> hs[0 := (hs ! 0)\<lparr>node := node c\<rparr>])"
    using repair_head_find[OF assms(1), of "rev [1..<length hs]"] unfolding m by simp
  also have "\<dots> = Inr (hs[0 := (hs ! 0)\<lparr>node := inherited hs 0\<rparr>])"
    by (simp add: inherited_def split: option.splits)
  finally show ?thesis using assms by (simp add: repair_spec_nth)
qed

lemma inherit_step:
  assumes "Suc b < length hs" and "rank (hs ! Suc b) = - 1" and "\<exists>c \<in> set hs. claimed c"
  shows "node (repair_spec hs ! b) = inherited hs (Suc b)"
proof -
  define X where "X = rev (take b hs) @ rev (drop (Suc (Suc b)) hs)"
  have pa: "preceding hs (Suc b) = hs ! b # X"
    using assms(1) by (simp add: preceding_def X_def take_Suc_conv_app_nth)
  have pb: "preceding hs b = X @ [hs ! Suc b]"
    using assms(1) by (simp add: preceding_def X_def Cons_nth_drop_Suc[symmetric])
  show ?thesis
  proof (cases "rank (hs ! b) = - 1")
    case False
    then show ?thesis
      using assms(1) by (simp add: repair_spec_nth inherited_def pa claimed_def)
  next
    case True
    have hs: "hs = take b hs @ hs ! b # hs ! Suc b # drop (Suc (Suc b)) hs"
      using assms(1) by (simp add: Cons_nth_drop_Suc id_take_nth_drop[symmetric])
    from assms(3) obtain c where c: "c \<in> set hs" "claimed c" by blast
    have "c \<in> set X"
    proof -
      from c(1) have "c \<in> set (take b hs @ hs ! b # hs ! Suc b # drop (Suc (Suc b)) hs)"
        using hs by simp
      then show ?thesis using c(2) True assms(2) by (auto simp: X_def claimed_def)
    qed
    then have "find claimed X \<noteq> None" using c(2) by (auto simp: find_None_iff)
    then obtain d where d: "find claimed X = Some d" by blast
    have "inherited hs (Suc b) = node d"
      using True by (simp add: inherited_def pa d claimed_def)
    moreover have "inherited hs b = node d"
      by (simp add: inherited_def pb find_append d)
    ultimately show ?thesis using True assms(1) by (simp add: repair_spec_nth)
  qed
qed

lemma repair_tail_spec:
  assumes "\<exists>c \<in> set hs. claimed c"
  shows "length cur = length hs \<Longrightarrow> 1 \<le> a \<Longrightarrow> a \<le> length hs \<Longrightarrow>
    (\<forall>j<a. cur ! j = repair_spec hs ! j) \<Longrightarrow>
    (\<forall>j. a \<le> j \<and> j < length hs \<longrightarrow> cur ! j = hs ! j) \<Longrightarrow>
    repair_tail cur [int a..int (length hs) - 1] = Inr (repair_spec hs)"
proof (induction "length hs - a" arbitrary: a cur)
  case 0
  then have "a = length hs" by simp
  with 0 have "cur = repair_spec hs"
    by (auto intro!: nth_equalityI simp: length_repair_spec)
  then show ?case using \<open>a = length hs\<close> by simp
next
  case (Suc k)
  then have lt: "a < length hs" by simp
  obtain b where b: "a = Suc b" using Suc.prems(2) by (cases a) auto
  have up: "[int a..int (length hs) - 1] = int a # [int (Suc a)..int (length hs) - 1]"
    using lt by (simp add: upto_rec1 add.commute)
  have cura: "cur ! a = hs ! a" using Suc.prems(5) lt by simp
  have ia: "index cur (int a) = Inr (hs ! a)"
    using lt Suc.prems(1) cura by (simp add: index_nat)
  have ib: "index cur (int a - 1) = Inr (repair_spec hs ! b)"
    using lt Suc.prems(1) Suc.prems(4) b by (simp add: index_def nat_diff_distrib)
  define cur' where
    "cur' = (if rank (hs ! a) = - 1 then cur[a := (hs ! a)\<lparr>node := node (repair_spec hs ! b)\<rparr>] else cur)"
  have step: "repair_tail cur [int a..int (length hs) - 1] =
               repair_tail cur' [int (Suc a)..int (length hs) - 1]"
    unfolding up using ia ib lt Suc.prems(1)
    by (simp add: cur'_def updateNode_def del: upto.simps)
  have tgt: "cur' ! a = repair_spec hs ! a"
    using lt Suc.prems(1) cura inherit_step[OF _ _ assms, of b] b
    by (simp add: cur'_def repair_spec_nth)
  have "repair_tail cur' [int (Suc a)..int (length hs) - 1] = Inr (repair_spec hs)"
  proof (rule Suc.hyps(1))
    show "k = length hs - Suc a" using Suc.hyps(2) by simp
    show "length cur' = length hs" using Suc.prems(1) by (simp add: cur'_def)
    show "1 \<le> Suc a" by simp
    show "Suc a \<le> length hs" using lt by simp
    show "\<forall>j<Suc a. cur' ! j = repair_spec hs ! j"
      using Suc.prems(4) tgt by (auto simp: less_Suc_eq cur'_def)
    show "\<forall>j. Suc a \<le> j \<and> j < length hs \<longrightarrow> cur' ! j = hs ! j"
      using Suc.prems(5) by (auto simp: cur'_def)
  qed
  with step show ?case by simp
qed

lemma repair_eq_spec:
  assumes "well_formed r" and "\<exists>c \<in> set (hashes r). rank c \<noteq> - 1"
  shows "repair r = Inr (r\<lparr>hashes := repair_spec (hashes r)\<rparr>)"
proof -
  let ?hs = "hashes r"
  from assms(1) have q0: "q r \<noteq> 0" and len: "length ?hs = unat (q r)"
    and small: "uint (q r) < 2 ^ 63"
    by (auto simp: well_formed_def makeslice_def)
  have ne: "?hs \<noteq> []" using q0 len by (auto simp: unat_eq_zero)
  have i0: "index ?hs 0 = Inr (?hs ! 0)" using ne by (simp add: index_def)
  have l1: "rev [1..<Suc (unat (q r - 1))] = rev [1..<length ?hs]"
    using q0 len by (simp add: unat_minus_one unat_gt_0[THEN iffD2] del: upt_Suc)
  have l2: "[1..sint (q r) - 1] = [int 1..int (length ?hs) - 1]"
    using small len by (simp add: sint_small)
  have cl: "\<exists>c \<in> set ?hs. claimed c" using assms(2) by (simp add: claimed_def)
  define hs1 where "hs1 = ?hs[0 := repair_spec ?hs ! 0]"
  have h1: "(if rank (?hs ! 0) = - 1 then repair_head ?hs (rev [1..<length ?hs]) else Inr ?hs) = Inr hs1"
    using ne repair_head_spec[OF ne] by (auto simp: hs1_def repair_spec_nth)
  have t: "repair_tail hs1 [int 1..int (length ?hs) - 1] = Inr (repair_spec ?hs)"
    by (rule repair_tail_spec[OF cl]) (use ne in \<open>auto simp: hs1_def Suc_le_eq\<close>)
  show ?thesis
    unfolding repair_def i0 l1 l2 by (simp only: sum.case h1 t)
qed


lemma find_claimed_preceding:
  assumes "i < length hs" and "rank (hs ! i) = - 1" and "\<exists>c \<in> set hs. claimed c"
  shows "\<exists>c. find claimed (preceding hs i) = Some c"
proof -
  from assms(3) obtain c where c: "c \<in> set hs" "claimed c" by blast
  have "hs = take i hs @ hs ! i # drop (Suc i) hs"
    using assms(1) by (simp add: id_take_nth_drop[symmetric])
  then have "c \<in> set (take i hs @ hs ! i # drop (Suc i) hs)" using c(1) by simp
  then have "c \<in> set (preceding hs i)"
    using c(2) assms(2) by (auto simp: preceding_def claimed_def)
  then have "find claimed (preceding hs i) \<noteq> None"
    using c(2) by (auto simp: find_None_iff)
  then show ?thesis by blast
qed

text \<open>
  C5. Provided at least one shard is token-claimed, the two loops of \<open>repair\<close> return,
  and the result is the declarative rule \<open>repair_spec\<close>: every shard with rank \<open>-1\<close>
  receives the node of the first claimed shard met walking backwards from it, wrapping past
  index 0 (and such a shard exists); \<open>hash\<close>, \<open>addr\<close> and \<open>rank\<close> of every shard are
  unchanged, so rank \<open>-1\<close> stays as the marker.
\<close>

theorem C5_repair_nearest_preceding_claimed:
  assumes "well_formed r" and "\<exists>c \<in> set (hashes r). rank c \<noteq> - 1"
  shows "repair r = Inr (r\<lparr>hashes := repair_spec (hashes r)\<rparr>)
         \<and> map hash (repair_spec (hashes r)) = map hash (hashes r)
         \<and> map addr (repair_spec (hashes r)) = map addr (hashes r)
         \<and> map rank (repair_spec (hashes r)) = map rank (hashes r)
         \<and> (\<forall>i < length (hashes r). rank (hashes r ! i) = - 1 \<longrightarrow>
               (\<exists>c. find claimed (preceding (hashes r) i) = Some c))"
proof -
  have f: "map hash (repair_spec hs) = map hash hs \<and> map addr (repair_spec hs) = map addr hs
           \<and> map rank (repair_spec hs) = map rank hs" for hs
    by (auto intro!: nth_equalityI simp: length_repair_spec repair_spec_nth)
  have "\<exists>c \<in> set (hashes r). claimed c" using assms(2) by (simp add: claimed_def)
  then show ?thesis
    using repair_eq_spec[OF assms] f[of "hashes r"] find_claimed_preceding[of _ "hashes r"]
    by blast
qed

lemma before_repair_shape:
  "map rank (hashes before_repair) = [- 1, 0, - 1, 0]
   \<and> map node (hashes before_repair) = [''a'', ''a'', ''a'', ''cc'']"
  by code_simp

lemma before_repair_wf: "well_formed before_repair"
  by code_simp

lemma before_repair_claimed: "rank (hashes before_repair ! 1) = 0 \<and> 1 < length (hashes before_repair)"
  by code_simp

lemma before_repair_spec:
  "map node (repair_spec (hashes before_repair)) = [''cc'', ''a'', ''a'', ''cc'']
   \<and> map rank (repair_spec (hashes before_repair)) = [- 1, 0, - 1, 0]"
  by code_simp


theorem C5_repair_nearest_preceding_claimed_witness:
  "well_formed before_repair
   \<and> map rank (hashes before_repair) = [- 1, 0, - 1, 0]
   \<and> map node (hashes before_repair) = [''a'', ''a'', ''a'', ''cc'']
   \<and> repair before_repair = Inr (before_repair\<lparr>hashes := repair_spec (hashes before_repair)\<rparr>)
   \<and> map node (repair_spec (hashes before_repair)) = [''cc'', ''a'', ''a'', ''cc'']
   \<and> map rank (repair_spec (hashes before_repair)) = [- 1, 0, - 1, 0]"
proof -
  have c: "\<exists>c \<in> set (hashes before_repair). rank c \<noteq> - 1"
    using before_repair_claimed
    by (intro bexI[of _ "hashes before_repair ! 1"]) auto
  show ?thesis
    using C5_repair_nearest_preceding_claimed[OF before_repair_wf c] before_repair_wf before_repair_spec before_repair_shape
    by simp
qed

subsection \<open>The invariant of reachable rings\<close>

lemma node_only_refl: "node_only hs hs"
  by (auto simp: node_only_def)

lemma node_only_nodes: "node_only a b \<Longrightarrow> node ` set b \<subseteq> node ` set a"
  by (auto simp: node_only_def in_set_conv_nth)

lemma node_only_trans:
  assumes "node_only a b" and "node_only b c"
  shows "node_only a c"
proof -
  have sub: "node ` set b \<subseteq> node ` set a" using assms(1) by (rule node_only_nodes)
  have "node (c ! i) \<in> node ` set a" if "i < length a" for i
  proof -
    have "node (c ! i) \<in> node ` set b" using assms that by (simp add: node_only_def)
    then show ?thesis using sub by blast
  qed
  moreover have "length c = length a" using assms by (simp add: node_only_def)
  moreover have "rank (c ! i) = rank (a ! i) \<and> addr (c ! i) = addr (a ! i)
      \<and> hash (c ! i) = hash (a ! i) \<and> (claimed (a ! i) \<longrightarrow> c ! i = a ! i)"
    if "i < length a" for i
    using assms that by (simp add: node_only_def claimed_def)
  ultimately show ?thesis by (simp add: node_only_def)
qed

lemma updateNode_node_only:
  assumes "updateNode hs i x = Inr hs'" and "x \<in> set hs"
    and "\<And>h. index hs i = Inr h \<Longrightarrow> rank h = - 1"
  shows "node_only hs hs'"
proof -
  from assms(1) obtain h where ix: "index hs i = Inr h"
    and hs': "hs' = hs[nat i := h\<lparr>node := node x\<rparr>]"
    by (auto simp: updateNode_def split: sum.splits)
  from ix have i: "0 \<le> i" "nat i < length hs" "h = hs ! nat i"
    by (auto simp: index_def split: if_splits)
  have r: "rank (hs ! nat i) = - 1" using assms(3)[OF ix] i by simp
  show ?thesis
    unfolding node_only_def hs' using i r assms(2)
    by (auto simp: nth_list_update claimed_def)
qed

lemma node_only_rank: "node_only a b \<Longrightarrow> map rank b = map rank a"
  by (auto intro!: nth_equalityI simp: node_only_def)

lemma claimed_map_rank: "(\<exists>c \<in> set hs. claimed c) \<longleftrightarrow> (\<exists>x \<in> set (map rank hs). x \<noteq> - 1)"
  by (auto simp: claimed_def)

lemma node_only_claimed:
  "node_only a b \<Longrightarrow> (\<exists>c \<in> set b. claimed c) \<longleftrightarrow> (\<exists>c \<in> set a. claimed c)"
  unfolding claimed_map_rank by (simp add: node_only_rank)

lemma repair_head_node_only:
  "repair_head hs js = Inr hs' \<Longrightarrow> (\<And>h. index hs 0 = Inr h \<Longrightarrow> rank h = - 1) \<Longrightarrow>
     node_only hs hs'"
proof (induction js)
  case Nil
  then show ?case by (simp add: node_only_refl)
next
  case (Cons j js)
  from Cons.prems(1) obtain h where ix: "index hs (int j) = Inr h"
    by (auto split: sum.splits)
  show ?case
  proof (cases "rank h \<noteq> - 1")
    case True
    then have "updateNode hs 0 h = Inr hs'" using Cons.prems(1) ix by simp
    then show ?thesis
      using index_Inr_set[OF ix] Cons.prems(2) by (rule updateNode_node_only)
  next
    case False
    then have "repair_head hs js = Inr hs'" using Cons.prems(1) ix by simp
    then show ?thesis using Cons.prems(2) by (rule Cons.IH)
  qed
qed

lemma repair_tail_node_only:
  "repair_tail hs is = Inr hs' \<Longrightarrow> node_only hs hs'"
proof (induction "is" arbitrary: hs)
  case Nil
  then show ?case by (simp add: node_only_refl)
next
  case (Cons i "is")
  from Cons.prems obtain h where ix: "index hs i = Inr h"
    by (auto split: sum.splits)
  show ?case
  proof (cases "rank h = - 1")
    case True
    from Cons.prems ix True obtain p hs1 where
      ip: "index hs (i - 1) = Inr p" and up: "updateNode hs i p = Inr hs1"
      and rt: "repair_tail hs1 is = Inr hs'"
      by (auto split: sum.splits)
    have "node_only hs hs1"
      using up index_Inr_set[OF ip] ix True by (auto intro: updateNode_node_only)
    moreover have "node_only hs1 hs'" using rt by (rule Cons.IH)
    ultimately show ?thesis by (rule node_only_trans)
  next
    case False
    then have "repair_tail hs is = Inr hs'" using Cons.prems ix by simp
    then show ?thesis by (rule Cons.IH)
  qed
qed

lemma repair_node_only:
  assumes "repair r = Inr r'"
  shows "node_only (hashes r) (hashes r') \<and> r' = r\<lparr>hashes := hashes r'\<rparr>"
proof -
  from assms obtain h0 hs1 hs2 where
    i0: "index (hashes r) 0 = Inr h0" and
    h1: "(if rank h0 = - 1 then repair_head (hashes r) (rev [1..<Suc (unat (q r - 1))])
          else Inr (hashes r)) = Inr hs1" and
    h2: "repair_tail hs1 [1..sint (q r) - 1] = Inr hs2" and
    r': "r' = r\<lparr>hashes := hs2\<rparr>"
    by (auto simp: repair_def split: sum.splits)
  have "node_only (hashes r) hs1"
  proof (cases "rank h0 = - 1")
    case True
    then have "repair_head (hashes r) (rev [1..<Suc (unat (q r - 1))]) = Inr hs1"
      using h1 by simp
    then show ?thesis using i0 True by (auto intro: repair_head_node_only)
  next
    case False
    then show ?thesis using h1 by (simp add: node_only_refl)
  qed
  moreover have "node_only hs1 hs2" using h2 by (rule repair_tail_node_only)
  ultimately have "node_only (hashes r) hs2" by (rule node_only_trans)
  then show ?thesis using r' by simp
qed

lemma update_claims_only:
  "update hs shard a rk nd = Inr hs' \<Longrightarrow> 0 \<le> rk \<Longrightarrow> claims_only nd hs hs'"
  by (auto simp: update_def claims_only_def index_def nth_list_update split: sum.splits if_splits)

lemma claims_only_trans:
  "claims_only nd a b \<Longrightarrow> claims_only nd b c \<Longrightarrow> claims_only nd a c"
  by (auto simp: claims_only_def) metis+

lemma allocate_claims_only:
  "allocate r nd rks h hs = Inr hs' \<Longrightarrow> \<forall>rk \<in> set rks. 0 \<le> rk \<Longrightarrow> claims_only nd hs hs'"
proof (induction rks arbitrary: h hs)
  case Nil
  then show ?case by (simp add: claims_only_def)
next
  case (Cons rk rks)
  from Cons.prems(1) obtain shard a main hs1 where
    ah: "addressHash r (ring_hash r nd h) = Inr (shard, a)" and
    ix: "index hs shard = Inr main" and
    u: "(if claims main rk a then update hs shard a rk nd else Inr hs) = Inr hs1" and
    rest: "allocate r nd rks (ring_hash r nd h) hs1 = Inr hs'"
    by (auto split: sum.splits prod.splits)
  have "claims_only nd hs hs1"
  proof (cases "claims main rk a")
    case True
    then have "update hs shard a rk nd = Inr hs1" using u by simp
    then show ?thesis using Cons.prems(2) by (auto intro: update_claims_only)
  next
    case False
    then show ?thesis using u by (simp add: claims_only_def)
  qed
  moreover have "claims_only nd hs1 hs'"
    using rest Cons.prems(2) by (auto intro: Cons.IH)
  ultimately show ?case by (rule claims_only_trans)
qed

lemma allocate_first_claimed:
  assumes "allocate r nd (0 # rks) h hs = Inr hs'" and "\<forall>rk \<in> set rks. 0 \<le> rk"
  shows "\<exists>c \<in> set hs'. claimed c"
proof -
  from assms(1) obtain shard a main hs1 where
    ix: "index hs shard = Inr main" and
    u: "(if claims main 0 a then update hs shard a 0 nd else Inr hs) = Inr hs1" and
    rest: "allocate r nd rks (ring_hash r nd h) hs1 = Inr hs'"
    by (auto split: sum.splits prod.splits)
  from ix have s: "0 \<le> shard" "nat shard < length hs" "main = hs ! nat shard"
    by (auto simp: index_def split: if_splits)
  have c1: "claimed (hs1 ! nat shard) \<and> length hs1 = length hs"
  proof (cases "claims main 0 a")
    case True
    then show ?thesis using u s by (auto simp: update_def ix claimed_def)
  next
    case False
    then have "rank main = 0" by (auto simp: claims_def split: if_splits)
    then show ?thesis using u False s by (auto simp: claimed_def)
  qed
  have co: "claims_only nd hs1 hs'" using rest assms(2) by (rule allocate_claims_only)
  then have "claimed (hs' ! nat shard)"
    using c1 s by (auto simp: claims_only_def claimed_def)
  moreover have "nat shard < length hs'" using co c1 s by (simp add: claims_only_def)
  ultimately show ?thesis using nth_mem by blast
qed

lemma find_Some_set: "find P xs = Some x \<Longrightarrow> x \<in> set xs \<and> P x"
  by (induction xs) (auto split: if_splits)

lemma set_preceding: "set (preceding hs i) \<subseteq> set hs"
  by (auto simp: preceding_def dest: in_set_takeD in_set_dropD)

lemma repair_spec_owner:
  assumes "\<exists>c \<in> set hs. claimed c" and "e \<in> set (repair_spec hs)"
  shows "\<exists>c \<in> set (repair_spec hs). claimed c \<and> node c = node e"
proof -
  from assms(2) obtain i where i: "i < length hs" "e = repair_spec hs ! i"
    by (auto simp: in_set_conv_nth length_repair_spec)
  show ?thesis
  proof (cases "rank (hs ! i) = - 1")
    case False
    then have "claimed e" using i by (simp add: repair_spec_nth claimed_def)
    then show ?thesis using assms(2) by blast
  next
    case True
    from find_claimed_preceding[OF i(1) True assms(1)] obtain c where
      c: "find claimed (preceding hs i) = Some c" by blast
    then have cs: "c \<in> set hs" "claimed c"
      using find_Some_set[OF c] set_preceding[of hs i] by auto
    then obtain j where j: "j < length hs" "c = hs ! j" by (auto simp: in_set_conv_nth)
    then have "repair_spec hs ! j = c" using cs(2) by (simp add: repair_spec_nth claimed_def)
    then have "c \<in> set (repair_spec hs)"
      using j(1) by (metis length_repair_spec nth_mem)
    moreover have "node e = node c" using i True c by (simp add: repair_spec_nth inherited_def)
    ultimately show ?thesis using cs(2) by auto
  qed
qed

lemma Options_append: "Options (xs @ ys) r = Options ys (Options xs r)"
  by (induction xs arbitrary: r) auto

lemma empty_consistent:
  assumes "empty r = Inr r0" and "q r \<noteq> 0"
  shows "consistent r0 \<and> nodes r0 = Map.empty \<and> (\<forall>e \<in> set (hashes r0). node e = [] \<and> \<not> claimed e)
         \<and> r0 = r\<lparr>hashes := hashes r0, nodes := Map.empty\<rparr>"
  using assms
  by (auto simp: empty_def addresses_def consistent_def well_formed_def claimed_def
           split: if_splits)

lemma New_consistent:
  assumes "New sha1 opts = Inr r"
  shows "consistent r \<and> nodes r = Map.empty \<and> (\<forall>e \<in> set (hashes r). node e = [])"
proof -
  define c where "c = Options opts (M64_Q8_T8 sha1 zero_ring)"
  from assms obtain a where sg: "segment c = Inr a" and e: "empty (c\<lparr>arc := a\<rparr>) = Inr r"
    by (auto simp: New_def Let_def c_def split: sum.splits)
  have "q c \<noteq> 0" using sg by (auto simp: segment_def split: if_splits)
  then have "q (c\<lparr>arc := a\<rparr>) \<noteq> 0" by simp
  from empty_consistent[OF e this] show ?thesis by simp
qed

lemma Handoff_consistent: "consistent r \<Longrightarrow> consistent (Handoff nd r)"
  by (auto simp: consistent_def Handoff_def well_formed_def)

lemma Join_consistent:
  assumes "consistent r" and "Join nd r = Inr r'"
  shows "consistent r'"
proof (cases "nodes r nd = None")
  case False
  then have "r' = r\<lparr>nodes := (nodes r)(nd \<mapsto> True)\<rparr>" using assms(2) by (auto simp: Join_def)
  then show ?thesis using assms(1) by (auto simp: consistent_def well_formed_def)
next
  case True
  from assms(2) True obtain hs1 r2 where
    al: "allocate r nd [0..sint (t r) - 1] [] (hashes r) = Inr hs1" and
    rp: "repair (r\<lparr>hashes := hs1\<rparr>) = Inr r2" and
    r': "r' = r2\<lparr>nodes := (nodes r2)(nd \<mapsto> True)\<rparr>"
    by (auto simp: Join_def split: sum.splits)
  let ?hs = "hashes r" and ?hs2 = "hashes r2"
  have co: "claims_only nd ?hs hs1" using al by (rule allocate_claims_only) simp
  from repair_node_only[OF rp] have no: "node_only hs1 ?hs2" and r2: "r2 = r\<lparr>hashes := ?hs2\<rparr>"
    by simp_all
  have len: "length hs1 = length ?hs" "length ?hs2 = length ?hs"
    using co no by (simp_all add: claims_only_def node_only_def)
  have wf: "well_formed r" using assms(1) by (simp add: consistent_def)
  have wf1: "well_formed (r\<lparr>hashes := hs1\<rparr>)" using wf len by (simp add: well_formed_def)
  have wf': "well_formed r'"
    using wf len by (subst r', subst r2) (simp add: well_formed_def)
  have nodes': "nodes r' = (nodes r)(nd \<mapsto> True)" "hashes r' = ?hs2"
    by (subst r', subst r2, simp)+
  have I2: "nodes r' (node e) \<noteq> None" if e: "e \<in> set ?hs2" "claimed e" for e
  proof -
    from e(1) obtain i where i: "i < length ?hs" "e = ?hs2 ! i"
      using len by (auto simp: in_set_conv_nth)
    have c1: "claimed (hs1 ! i)" using no i e(2) len by (simp add: node_only_def claimed_def)
    then have e1: "e = hs1 ! i" using no i len by (simp add: node_only_def)
    from co i have "hs1 ! i = ?hs ! i \<or> node (hs1 ! i) = nd" by (auto simp: claims_only_def)
    then show ?thesis
    proof
      assume eq: "hs1 ! i = ?hs ! i"
      then have "?hs ! i \<in> set ?hs" "claimed (?hs ! i)" using i c1 by auto
      then have "nodes r (node (?hs ! i)) \<noteq> None" using assms(1) by (auto simp: consistent_def)
      then show ?thesis using e1 eq by (auto simp: nodes')
    next
      assume "node (hs1 ! i) = nd"
      then show ?thesis using e1 by (simp add: nodes')
    qed
  qed
  have cl_iff: "(\<exists>c \<in> set ?hs2. claimed c) \<longleftrightarrow> (\<exists>c \<in> set hs1. claimed c)"
    using no by (rule node_only_claimed)
  have I3: "\<exists>c \<in> set ?hs2. claimed c \<and> node c = node e"
    if ex: "\<exists>c \<in> set ?hs2. claimed c" and e: "e \<in> set ?hs2" for e
  proof -
    have ex1: "\<exists>c \<in> set hs1. claimed c" using ex cl_iff by simp
    then have "\<exists>c \<in> set (hashes (r\<lparr>hashes := hs1\<rparr>)). rank c \<noteq> - 1" by (simp add: claimed_def)
    from repair_eq_spec[OF wf1 this] rp have "?hs2 = repair_spec hs1" by simp
    then show ?thesis using repair_spec_owner[OF ex1] e by simp
  qed
  have I4: "node e = []" if none: "\<forall>c \<in> set ?hs2. \<not> claimed c" and e: "e \<in> set ?hs2" for e
  proof -
    have n1: "\<forall>c \<in> set hs1. \<not> claimed c" using none cl_iff by blast
    have "hs1 = ?hs"
    proof (rule nth_equalityI)
      show "length hs1 = length ?hs" by (rule len)
      fix i assume i: "i < length hs1"
      then have "\<not> claimed (hs1 ! i)" using n1 by simp
      then show "hs1 ! i = ?hs ! i"
        using co i len by (auto simp: claims_only_def claimed_def)
    qed
    then have "\<forall>c \<in> set ?hs. \<not> claimed c" using n1 by simp
    then have all: "\<forall>x \<in> set ?hs. node x = []" using assms(1) by (simp add: consistent_def)
    from e obtain i where i: "i < length ?hs" "e = ?hs2 ! i"
      using len by (auto simp: in_set_conv_nth)
    then have "node e \<in> node ` set hs1" using no len by (simp add: node_only_def)
    then show ?thesis using all \<open>hs1 = ?hs\<close> by auto
  qed
  show ?thesis
    unfolding consistent_def nodes' using wf' I2 I3 I4 nodes' by auto
qed

lemma rejoin_consistent:
  "consistent r \<Longrightarrow> rejoin ks r = Inr r' \<Longrightarrow> consistent r'"
proof (induction ks arbitrary: r)
  case Nil
  then show ?case by simp
next
  case (Cons k ks)
  from Cons.prems(2) obtain r1 where j: "Join k r = Inr r1" and rj: "rejoin ks r1 = Inr r'"
    by (auto split: sum.splits)
  show ?case using Cons.IH[OF Join_consistent[OF Cons.prems(1) j] rj] .
qed

lemma Leave_consistent:
  assumes "consistent r" and "Leave ks nd r = Inr r'"
  shows "consistent r'"
proof (cases "nodes r nd = None")
  case True
  then show ?thesis using assms by (simp add: Leave_def)
next
  case False
  then obtain r0 where e: "empty r = Inr r0" and rj: "rejoin ks r0 = Inr r'"
    using assms(2) by (auto simp: Leave_def split: sum.splits)
  have "q r \<noteq> 0" using assms(1) by (simp add: consistent_def well_formed_def)
  from empty_consistent[OF e this] have "consistent r0" by simp
  then show ?thesis using rj by (rule rejoin_consistent)
qed

lemma reach_consistent: "reach r \<Longrightarrow> consistent r"
proof (induction rule: reach.induct)
  case (reach_New sha1 opts r)
  then show ?case by (simp add: New_consistent)
next
  case (reach_Join r nd r')
  then show ?case by (auto intro: Join_consistent)
next
  case (reach_Leave r ks nd r')
  then show ?case by (auto intro: Leave_consistent)
next
  case (reach_Handoff r nd)
  then show ?case by (simp add: Handoff_consistent)
qed

subsection \<open>Shard owners and members\<close>

lemma Join_keeps_claimed:
  assumes "\<exists>c \<in> set (hashes r). claimed c" and "Join nd r = Inr r'"
  shows "\<exists>c \<in> set (hashes r'). claimed c"
proof (cases "nodes r nd = None")
  case False
  then have "r' = r\<lparr>nodes := (nodes r)(nd \<mapsto> True)\<rparr>" using assms(2) by (auto simp: Join_def)
  then show ?thesis using assms(1) by simp
next
  case True
  from assms(2) True obtain hs1 r2 where
    al: "allocate r nd [0..sint (t r) - 1] [] (hashes r) = Inr hs1" and
    rp: "repair (r\<lparr>hashes := hs1\<rparr>) = Inr r2" and
    r': "r' = r2\<lparr>nodes := (nodes r2)(nd \<mapsto> True)\<rparr>"
    by (auto simp: Join_def split: sum.splits)
  have co: "claims_only nd (hashes r) hs1" using al by (rule allocate_claims_only) simp
  from assms(1) obtain i where i: "i < length (hashes r)" "claimed (hashes r ! i)"
    by (auto simp: in_set_conv_nth)
  then have "claimed (hs1 ! i)" "i < length hs1"
    using co by (auto simp: claims_only_def claimed_def)
  then have "\<exists>c \<in> set hs1. claimed c" using nth_mem by blast
  moreover have "node_only hs1 (hashes r2)" using repair_node_only[OF rp] by simp
  ultimately have "\<exists>c \<in> set (hashes r2). claimed c" by (simp add: node_only_claimed)
  then show ?thesis by (simp add: r')
qed

lemma Join_new_claims:
  assumes "nodes r nd = None" and "1 \<le> sint (t r)" and "Join nd r = Inr r'"
  shows "\<exists>c \<in> set (hashes r'). claimed c"
proof -
  from assms(3,1) obtain hs1 r2 where
    al: "allocate r nd [0..sint (t r) - 1] [] (hashes r) = Inr hs1" and
    rp: "repair (r\<lparr>hashes := hs1\<rparr>) = Inr r2" and
    r': "r' = r2\<lparr>nodes := (nodes r2)(nd \<mapsto> True)\<rparr>"
    by (auto simp: Join_def split: sum.splits)
  have up: "[0..sint (t r) - 1] = 0 # [1..sint (t r) - 1]"
    using assms(2) by (simp add: upto_rec1)
  have "\<exists>c \<in> set hs1. claimed c"
    using al unfolding up by (rule allocate_first_claimed) simp
  moreover have "node_only hs1 (hashes r2)" using repair_node_only[OF rp] by simp
  ultimately have "\<exists>c \<in> set (hashes r2). claimed c" by (simp add: node_only_claimed)
  then show ?thesis by (simp add: r')
qed

lemma rejoin_keeps_claimed:
  "\<exists>c \<in> set (hashes r). claimed c \<Longrightarrow> rejoin ks r = Inr r' \<Longrightarrow> \<exists>c \<in> set (hashes r'). claimed c"
proof (induction ks arbitrary: r)
  case Nil
  then show ?case by simp
next
  case (Cons k ks)
  from Cons.prems(2) obtain r1 where j: "Join k r = Inr r1" and rj: "rejoin ks r1 = Inr r'"
    by (auto split: sum.splits)
  show ?case using Cons.IH[OF Join_keeps_claimed[OF Cons.prems(1) j] rj] .
qed

lemma Leave_claims:
  assumes "nodes r nd \<noteq> None" and "ks \<noteq> []" and "1 \<le> sint (t r)" and "Leave ks nd r = Inr r'"
  shows "\<exists>c \<in> set (hashes r'). claimed c"
proof -
  from assms(1,4) obtain r0 where e: "empty r = Inr r0" and rj: "rejoin ks r0 = Inr r'"
    by (auto simp: Leave_def split: sum.splits)
  from e have r0: "nodes r0 = Map.empty" "t r0 = t r"
    by (auto simp: empty_def split: sum.splits if_splits)
  from assms(2) obtain k ks' where ks: "ks = k # ks'" by (cases ks) auto
  from rj ks obtain r1 where j: "Join k r0 = Inr r1" and rj': "rejoin ks' r1 = Inr r'"
    by (auto split: sum.splits)
  have "\<exists>c \<in> set (hashes r1). claimed c"
    using Join_new_claims[OF _ _ j] r0 assms(3) by simp
  then show ?thesis using rj' by (rule rejoin_keeps_claimed)
qed

text \<open>
  C4, amended. For every ring reached through \<open>New\<close>, \<open>Join\<close>, \<open>Leave\<close> and \<open>Handoff\<close>:
  if the empty string is not a member and at least one shard is token-claimed, the ring has
  \<open>q\<close> shard entries and each has a non-empty node that is a member. A shard is
  token-claimed after every \<open>Join\<close> of a new node, and after every \<open>Leave\<close> that re-joins
  at least one key, when \<open>1 \<le> int(t)\<close>.
\<close>

theorem C4_claimed_ring_nodes_are_members:
  assumes "reach r"
  shows "(nodes r [] = None \<and> (\<exists>c \<in> set (Shards r). rank c \<noteq> - 1) \<longrightarrow>
            length (Shards r) = unat (q r)
            \<and> (\<forall>e \<in> set (Shards r). node e \<noteq> [] \<and> nodes r (node e) \<noteq> None))
         \<and> (\<forall>nd r'. nodes r nd = None \<and> 1 \<le> sint (t r) \<and> Join nd r = Inr r' \<longrightarrow>
               (\<exists>c \<in> set (Shards r'). rank c \<noteq> - 1))
         \<and> (\<forall>ks nd r'. nodes r nd \<noteq> None \<and> ks \<noteq> [] \<and> 1 \<le> sint (t r)
                 \<and> Leave ks nd r = Inr r' \<longrightarrow>
               (\<exists>c \<in> set (Shards r'). rank c \<noteq> - 1))"
proof -
  have c: "consistent r" using assms by (rule reach_consistent)
  have a: "length (Shards r) = unat (q r)
           \<and> (\<forall>e \<in> set (Shards r). node e \<noteq> [] \<and> nodes r (node e) \<noteq> None)"
    if n: "nodes r [] = None" and ex: "\<exists>c \<in> set (Shards r). rank c \<noteq> - 1"
  proof -
    have ex': "\<exists>c \<in> set (hashes r). claimed c" using ex by (simp add: Shards_def claimed_def)
    have "node e \<noteq> [] \<and> nodes r (node e) \<noteq> None" if e: "e \<in> set (hashes r)" for e
    proof -
      from c ex' e obtain d where d: "d \<in> set (hashes r)" "claimed d" "node d = node e"
        unfolding consistent_def by blast
      then have "nodes r (node d) \<noteq> None" using c unfolding consistent_def by blast
      then show ?thesis using d(3) n by auto
    qed
    then show ?thesis using c by (simp add: Shards_def consistent_def well_formed_def)
  qed
  show ?thesis
    using a Join_new_claims Leave_claims unfolding Shards_def claimed_def by blast
qed

lemma Nodes_loop_eq:
  "Nodes_loop hs mp k =
     (if k \<in> node ` set hs
      then Some ((case mp k of None \<Rightarrow> [] | Some l \<Rightarrow> l) @ filter (\<lambda>h. node h = k) hs)
      else mp k)"
  by (induction hs arbitrary: mp)
    (auto simp: empty_filter_conv filter_empty_conv image_iff split: option.splits)

text \<open>
  C10. On a reachable ring with no members \<open>Nodes()\<close> is the map with the single key \<open>""\<close>,
  bound to the list of all \<open>q\<close> shard entries. On any ring \<open>s\<close>, every shard entry is
  listed under its own node, member or not.
\<close>

theorem C10_nodes_of_memberless_ring:
  assumes "reach r" and "nodes r = Map.empty"
  shows "Nodes r = [[] \<mapsto> Shards r] \<and> Shards r \<noteq> [] \<and> length (Shards r) = unat (q r)
         \<and> (\<forall>e \<in> set (Shards s). \<exists>l. Nodes s (node e) = Some l \<and> e \<in> set l)"
proof -
  have c: "consistent r" using assms(1) by (rule reach_consistent)
  have none: "\<forall>e \<in> set (hashes r). \<not> claimed e"
    using c assms(2) unfolding consistent_def by auto
  then have all: "\<forall>e \<in> set (hashes r). node e = []"
    using c unfolding consistent_def by blast
  have len: "length (hashes r) = unat (q r)" "q r \<noteq> 0"
    using c by (simp_all add: consistent_def well_formed_def)
  then have ne: "hashes r \<noteq> []" by (auto simp: unat_eq_zero)
  have f: "filter (\<lambda>h. node h = []) (hashes r) = hashes r" using all by (simp add: filter_id_conv)
  have img: "node ` set (hashes r) = {[]}" using all ne by (cases "hashes r") auto
  have "Nodes r k = [[] \<mapsto> hashes r] k" for k
    by (simp add: Nodes_def Nodes_loop_eq assms(2) img f)
  then have n: "Nodes r = [[] \<mapsto> Shards r]" by (auto simp: Shards_def)
  have "\<exists>l. Nodes s (node e) = Some l \<and> e \<in> set l" if "e \<in> set (Shards s)" for e
    using that by (auto simp: Nodes_def Nodes_loop_eq Shards_def)
  then show ?thesis using n ne len by (auto simp: Shards_def)
qed

lemma small_ring_fresh: "small_ring = Inr fresh"
proof -
  have "\<not> isl small_ring" by code_simp
  then obtain y where y: "small_ring = Inr y" by (blast dest: not_isl_Inr)
  have "fresh = y" unfolding fresh_def y by simp
  then show ?thesis using y by simp
qed

lemma reach_fresh: "reach fresh"
  using small_ring_fresh unfolding small_ring_def by (rule reach_New)

lemma nodes_fresh: "nodes fresh = Map.empty"
  using small_ring_fresh New_consistent unfolding small_ring_def by blast

lemma join_only_a: "Join ''a'' fresh = Inr only_a"
proof -
  have "\<not> isl (Join ''a'' fresh)" by code_simp
  then obtain y where "Join ''a'' fresh = Inr y" by (blast dest: not_isl_Inr)
  then show ?thesis by (simp add: only_a_def)
qed

lemma reach_only_a: "reach only_a"
  using reach_fresh join_only_a by (rule reach_Join)

lemma nodes_only_a: "nodes only_a = [''a'' \<mapsto> True]"
  using Join_nodes[OF join_only_a] by (simp add: nodes_fresh)

lemma leave_left_empty: "Leave [] ''a'' only_a = Inr left_empty"
proof -
  have "\<not> isl (Leave [] ''a'' only_a)" by code_simp
  then obtain y where "Leave [] ''a'' only_a = Inr y" by (blast dest: not_isl_Inr)
  then show ?thesis by (simp add: left_empty_def)
qed

lemma reach_left_empty: "reach left_empty"
proof (rule reach_Leave[OF reach_only_a _ leave_left_empty])
  show "iteration [] ((nodes only_a)(''a'' := None))"
    by (simp add: iteration_def nodes_only_a)
qed

lemma nodes_left_empty: "nodes left_empty = Map.empty"
proof -
  from leave_left_empty obtain r0 where e: "empty only_a = Inr r0" and "rejoin [] r0 = Inr left_empty"
    by (auto simp: Leave_def nodes_only_a split: sum.splits)
  then show ?thesis using empty_nodes[OF e] by simp
qed

lemma left_empty_shards:
  "map node (Shards left_empty) = [[], [], [], []] \<and> length (Shards left_empty) = 4"
  by code_simp

lemma reach_rejoin: "reach r \<Longrightarrow> rejoin ks r = Inr r' \<Longrightarrow> reach r'"
proof (induction ks arbitrary: r)
  case Nil
  then show ?case by simp
next
  case (Cons k ks)
  from Cons.prems(2) obtain r1 where j: "Join k r = Inr r1" and rj: "rejoin ks r1 = Inr r'"
    by (auto split: sum.splits)
  show ?case using Cons.IH[OF reach_Join[OF Cons.prems(1) j] rj] .
qed

lemma reach_handed_off: "reach handed_off"
proof -
  from three_nodes_ok obtain r3 where r3: "three_nodes = Inr r3"
    by (blast dest: not_isl_Inr)
  then have "rejoin [''a'', ''b0'', ''cc''] fresh = Inr r3"
    unfolding three_nodes_def small_ring_fresh by simp
  then have "reach r3" by (rule reach_rejoin[OF reach_fresh])
  then show ?thesis by (simp add: handed_off_def r3 reach_Handoff)
qed

lemma nodes_handed_off:
  "nodes handed_off =
     (\<lambda>k. if k = ''b0'' then Some False
          else if k \<in> {''a'', ''cc''} then Some True else None)"
proof -
  from three_nodes_ok obtain r3 where r3: "three_nodes = Inr r3"
    by (blast dest: not_isl_Inr)
  then have "rejoin [''a'', ''b0'', ''cc''] fresh = Inr r3"
    unfolding three_nodes_def small_ring_fresh by simp
  from rejoin_nodes[OF this] nodes_fresh show ?thesis
    by (auto simp: handed_off_def r3 Handoff_def fun_eq_iff)
qed

lemma handed_off_shards:
  "map node (Shards handed_off) = [''cc'', ''a'', ''b0'', ''cc'']
   \<and> map rank (Shards handed_off) = [- 1, 0, 0, 0]
   \<and> rank (Shards handed_off ! 1) = 0 \<and> 1 < length (Shards handed_off)"
  by code_simp

lemma only_a_shards:
  "map node (Shards only_a) = [''a'', ''a'', ''a'', ''a'']
   \<and> map rank (Shards only_a) = [- 1, 0, - 1, - 1] \<and> sint (t fresh) = 1"
  by code_simp

text \<open>
  C4. Claimed: once a node has joined, every shard has a non-empty node from the member set
  after any \<open>Join\<close>, \<open>Leave\<close> or \<open>Handoff\<close>. \<open>Leave\<close> of the only member resets the
  ring: \<open>a\<close> joined and claimed shard 1, and after \<open>Leave(a)\<close> every node field is empty
  and there is no member.
\<close>

theorem C4_last_leave_empties_nodes:
  "nodes only_a ''a'' = Some True
   \<and> map rank (Shards only_a) = [- 1, 0, - 1, - 1]
   \<and> Leave [] ''a'' only_a = Inr left_empty
   \<and> map node (Shards left_empty) = [[], [], [], []]
   \<and> nodes left_empty = Map.empty"
  using leave_left_empty left_empty_shards nodes_left_empty only_a_shards
  by (simp add: nodes_only_a)

theorem C4_claimed_ring_nodes_are_members_witness:
  "reach handed_off \<and> nodes handed_off [] = None
   \<and> rank (Shards handed_off ! 1) = 0
   \<and> map node (Shards handed_off) = [''cc'', ''a'', ''b0'', ''cc'']
   \<and> nodes handed_off ''b0'' = Some False
   \<and> list_all (\<lambda>e. node e \<noteq> [] \<and> nodes handed_off (node e) \<noteq> None) (Shards handed_off)
   \<and> reach fresh \<and> nodes fresh ''a'' = None \<and> sint (t fresh) = 1
   \<and> Join ''a'' fresh = Inr only_a
   \<and> list_ex (\<lambda>c. rank c \<noteq> - 1) (Shards only_a)"
proof -
  have n: "nodes handed_off [] = None" by (simp add: nodes_handed_off)
  have c: "\<exists>c \<in> set (Shards handed_off). rank c \<noteq> - 1"
    using handed_off_shards by (intro bexI[of _ "Shards handed_off ! 1"]) auto
  have 1: "list_all (\<lambda>e. node e \<noteq> [] \<and> nodes handed_off (node e) \<noteq> None) (Shards handed_off)"
    using C4_claimed_ring_nodes_are_members[OF reach_handed_off] n c unfolding list_all_iff by blast
  have t: "1 \<le> sint (t fresh)" using only_a_shards by simp
  have 2: "list_ex (\<lambda>c. rank c \<noteq> - 1) (Shards only_a)"
    using C4_claimed_ring_nodes_are_members[OF reach_fresh] nodes_fresh t join_only_a unfolding list_ex_iff by auto
  show ?thesis
    using 1 2 n reach_handed_off reach_fresh join_only_a handed_off_shards only_a_shards
    by (simp add: nodes_handed_off nodes_fresh)
qed

theorem C10_nodes_of_memberless_ring_witness:
  "reach left_empty \<and> nodes left_empty = Map.empty
   \<and> Nodes left_empty = [[] \<mapsto> Shards left_empty]
   \<and> length (Shards left_empty) = 4
   \<and> map node (Shards left_empty) = [[], [], [], []]"
  using C10_nodes_of_memberless_ring[OF reach_left_empty nodes_left_empty] reach_left_empty nodes_left_empty
    left_empty_shards
  by simp

subsection \<open>Construction and panics\<close>























































end
